theory Spec2Isabelle
  imports Main "HOL-Library.Sublist"
begin

section \<open>Strings of the script\<close>

text \<open>
  A Python \<open>str\<close> is modelled as a \<open>string\<close> (a list of 8-bit characters), offsets
  into it as \<open>nat\<close> (\<open>m.start()\<close> is never negative), the nesting counter as \<open>int\<close>.
  The characters that \<open>str.isspace\<close> accepts in that range are the ones below.
\<close>

definition isspace :: "char \<Rightarrow> bool" where
  "isspace c \<longleftrightarrow> of_char c \<in> {9, 10, 11, 12, 13, 28, 29, 30, 31, 32, 133, 160 :: nat}"

definition strip :: "string \<Rightarrow> string" where
  \<comment> \<open>\<open>s.strip()\<close>\<close>
  "strip s = rev (dropWhile isspace (rev (dropWhile isspace s)))"

definition strip_chars :: "string \<Rightarrow> string \<Rightarrow> string" where
  \<comment> \<open>\<open>s.strip(chars)\<close>\<close>
  "strip_chars chars s =
     rev (dropWhile (\<lambda>c. c \<in> set chars) (rev (dropWhile (\<lambda>c. c \<in> set chars) s)))"

fun split_from :: "string \<Rightarrow> string \<Rightarrow> string list" where
  \<comment> \<open>\<open>s.split()\<close> with the word read so far as first argument\<close>
  "split_from w [] = (if w = [] then [] else [w])"
| "split_from w (c # cs) =
     (if isspace c then (if w = [] then split_from [] cs else w # split_from [] cs)
      else split_from (w @ [c]) cs)"

definition split :: "string \<Rightarrow> string list" where
  "split s = split_from [] s"

fun join :: "string \<Rightarrow> string list \<Rightarrow> string" where
  \<comment> \<open>\<open>sep.join(xs)\<close>\<close>
  "join sep [] = []"
| "join sep [x] = x"
| "join sep (x # y # ys) = x @ sep @ join sep (y # ys)"

definition replace :: "char \<Rightarrow> char \<Rightarrow> string \<Rightarrow> string" where
  \<comment> \<open>\<open>s.replace(old, new)\<close> for one-character \<open>old\<close> and \<open>new\<close>\<close>
  "replace old new s = map (\<lambda>c. if c = old then new else c) s"

definition endswith :: "string \<Rightarrow> string \<Rightarrow> bool" where
  "endswith s suf \<longleftrightarrow> suffix suf s"

section \<open>Filename safety\<close>

definition ascii_letters :: string where
  "ascii_letters = ''abcdefghijklmnopqrstuvwxyzABCDEFGHIJKLMNOPQRSTUVWXYZ''"

definition digits :: string where
  "digits = ''0123456789''"

definition ALLOWED_CHARS :: "char set" where
  "ALLOWED_CHARS = set (ascii_letters @ digits @ '' _.-'')"

definition default_name :: string where
  "default_name = ''webwork-problems''"

definition sanitize_basename :: "string \<Rightarrow> string" where
  "sanitize_basename name0 =
     (let name = strip (if name0 = [] then [] else name0);
          name = filter (\<lambda>ch. ch \<in> ALLOWED_CHARS) name;
          name = join '' '' (split name);
          name = strip_chars '' .-'' (replace CHR '' '' CHR ''-'' name)
      in if name = [] then default_name else name)"

section \<open>Token-based block extraction\<close>

datatype py_error = IndexError | FileExistsError | NotADirectoryError

definition BEGIN_MARKER :: string where
  "BEGIN_MARKER = ''DOCUMENT();''"

definition END_MARKER :: string where
  "END_MARKER = ''ENDDOCUMENT();''"

text \<open>
  \<open>re.finditer(r'DOCUMENT\(\);|ENDDOCUMENT\(\);', s)\<close>: at each position the first
  alternative is tried before the second, a match is a token at that offset, and the
  search goes on behind the match. The first argument is the offset of the text that is
  left.
\<close>

function finditer :: "nat \<Rightarrow> string \<Rightarrow> (nat \<times> string) list" where
  "finditer pos s =
     (if s = [] then []
      else if prefix BEGIN_MARKER s
        then (pos, BEGIN_MARKER) # finditer (pos + length BEGIN_MARKER) (drop (length BEGIN_MARKER) s)
      else if prefix END_MARKER s
        then (pos, END_MARKER) # finditer (pos + length END_MARKER) (drop (length END_MARKER) s)
      else finditer (pos + 1) (tl s))"
  by pat_completeness auto
termination
  by (relation "measure (\<lambda>(pos, s). length s)") (auto simp: BEGIN_MARKER_def END_MARKER_def)

declare finditer.simps [simp del]

definition getitem :: "string \<Rightarrow> nat \<Rightarrow> py_error + char" where
  \<comment> \<open>\<open>s[i]\<close> for \<open>i \<ge> 0\<close>\<close>
  "getitem s i = (if i < length s then Inr (s ! i) else Inl IndexError)"

text \<open>
  \<open>while end_pos < len(s) and s[end_pos] not in '\n': end_pos += 1\<close>
\<close>

function extend_eol :: "string \<Rightarrow> nat \<Rightarrow> py_error + nat" where
  "extend_eol s end_pos =
     (if end_pos < length s
      then (case getitem s end_pos of
              Inl e \<Rightarrow> Inl e
            | Inr c \<Rightarrow> if c \<noteq> CHR 0x0A then extend_eol s (end_pos + 1) else Inr end_pos)
      else Inr end_pos)"
  by pat_completeness auto
termination
  by (relation "measure (\<lambda>(s, end_pos). length s - end_pos)") auto

declare extend_eol.simps [simp del]

record scan_state =
  blocks :: "string list"
  level :: int
  current_start :: "nat option"

definition slice :: "string \<Rightarrow> nat \<Rightarrow> nat \<Rightarrow> string" where
  \<comment> \<open>\<open>s[a:b]\<close> for \<open>a, b \<ge> 0\<close>\<close>
  "slice s a b = drop a (take b s)"

text \<open>The body of the \<open>for pos, tok in tokens\<close> loop.\<close>

definition step :: "string \<Rightarrow> scan_state \<Rightarrow> nat \<times> string \<Rightarrow> py_error + scan_state" where
  "step s st t =
     (case t of (pos, tok) \<Rightarrow>
        if tok = ''DOCUMENT();''
        then Inr (st\<lparr>current_start := (if level st = 0 then Some pos else current_start st),
                     level := level st + 1\<rparr>)
        else if level st > 0
        then (let st1 = st\<lparr>level := level st - 1\<rparr> in
              case current_start st1 of
                Some start \<Rightarrow>
                  if level st1 = 0
                  then (case extend_eol s (pos + length ''ENDDOCUMENT();'') of
                          Inl e \<Rightarrow> Inl e
                        | Inr end_pos \<Rightarrow>
                            let block = slice s start end_pos;
                                block = (if \<not> endswith block [CHR 0x0A] then block @ [CHR 0x0A]
                                         else block)
                            in Inr (st1\<lparr>blocks := blocks st1 @ [block], current_start := None\<rparr>))
                  else Inr st1
              | None \<Rightarrow> Inr st1)
        else Inr st)"

fun loop :: "string \<Rightarrow> scan_state \<Rightarrow> (nat \<times> string) list \<Rightarrow> py_error + scan_state" where
  "loop s st [] = Inr st"
| "loop s st (t # ts) = (case step s st t of Inl e \<Rightarrow> Inl e | Inr st' \<Rightarrow> loop s st' ts)"

definition init_state :: scan_state where
  "init_state = \<lparr>blocks = [], level = 0, current_start = None\<rparr>"

definition extract_pg_blocks_tokenized :: "string \<Rightarrow> py_error + string list" where
  "extract_pg_blocks_tokenized big_text =
     (let s = big_text;
          tokens = finditer 0 s
      in if tokens = [] then Inr []
         else (case loop s init_state tokens of
                 Inl e \<Rightarrow> Inl e
               | Inr st \<Rightarrow> Inr (blocks st)))"

section \<open>Path allocation\<close>

text \<open>
  A \<open>Path\<close> is modelled by its string; \<open>root / name\<close> appends the name behind a slash,
  which is what \<open>pathlib\<close> does for a relative name without empty or dot components.
  Whether a path exists is a predicate on paths. \<open>str_nat k\<close> is the decimal numeral
  that the f-string writes for \<open>k\<close>, which starts at one and only grows.
\<close>

type_synonym path = string

definition path_join :: "path \<Rightarrow> string \<Rightarrow> path" where
  "path_join root name = root @ ''/'' @ name"

definition digit :: "nat \<Rightarrow> char" where
  "digit d = ''0123456789'' ! d"

function str_nat :: "nat \<Rightarrow> string" where
  "str_nat n = (if n < 10 then [digit n] else str_nat (n div 10) @ [digit (n mod 10)])"
  by pat_completeness auto
termination
  by (relation "measure (\<lambda>n. n)") auto

declare str_nat.simps [simp del]

text \<open>The \<open>while True\<close> loops of the two allocators; not returning is \<open>None\<close>.\<close>

partial_function (option) unique_subfolder_loop ::
    "(path \<Rightarrow> bool) \<Rightarrow> path \<Rightarrow> string \<Rightarrow> nat \<Rightarrow> path option" where
  "unique_subfolder_loop exists root base k =
     (let q = path_join root (base @ ''-'' @ str_nat k)
      in if \<not> exists q then Some q else unique_subfolder_loop exists root base (k + 1))"

declare unique_subfolder_loop.simps [code]

definition unique_subfolder :: "(path \<Rightarrow> bool) \<Rightarrow> path \<Rightarrow> string \<Rightarrow> path option" where
  "unique_subfolder exists root base =
     (let p = path_join root base
      in if \<not> exists p then Some p else unique_subfolder_loop exists root base 1)"

partial_function (option) unique_zip_path_loop ::
    "(path \<Rightarrow> bool) \<Rightarrow> path \<Rightarrow> string \<Rightarrow> nat \<Rightarrow> path option" where
  "unique_zip_path_loop exists root base k =
     (let q = path_join root (base @ ''-'' @ str_nat k @ ''.zip'')
      in if \<not> exists q then Some q else unique_zip_path_loop exists root base (k + 1))"

declare unique_zip_path_loop.simps [code]

definition unique_zip_path :: "(path \<Rightarrow> bool) \<Rightarrow> path \<Rightarrow> string \<Rightarrow> path option" where
  "unique_zip_path exists root base =
     (let z = path_join root (base @ ''.zip'')
      in if \<not> exists z then Some z else unique_zip_path_loop exists root base 1)"

section \<open>Capture\<close>

text \<open>
  \<open>capture_lines_until_ctrl_c\<close> for the lines that \<open>input()\<close> returns before the
  interrupt: each line gets its newline back, then \<open>\r\n\<close> and \<open>\r\<close> become \<open>\n\<close>.
  The prompt that it prints first is among the events of \<open>main\<close> below.
\<close>

fun replace_crlf :: "string \<Rightarrow> string" where
  \<comment> \<open>\<open>s.replace("\r\n", "\n")\<close>\<close>
  "replace_crlf (c # d # cs) =
     (if c = CHR 0x0D \<and> d = CHR 0x0A then CHR 0x0A # replace_crlf cs
      else c # replace_crlf (d # cs))"
| "replace_crlf cs = cs"

definition capture_lines_until_ctrl_c :: "string list \<Rightarrow> string" where
  "capture_lines_until_ctrl_c lines =
     (let text = concat (map (\<lambda>line. line @ [CHR 0x0A]) lines)
      in replace CHR 0x0D CHR 0x0A (replace_crlf text))"

section \<open>The file system\<close>

text \<open>
  The file system is a finite table from paths to entries, the first entry of a path
  being the current one. Failures of the operating system that do not depend on this
  table (permissions, a full disk) are not modelled, and writing a file into the folder
  that \<open>main\<close> has just created succeeds.
\<close>

datatype entry = Dir | File string | Archive "(string \<times> string) list"

type_synonym filesystem = "(path \<times> entry) list"

definition path_exists :: "filesystem \<Rightarrow> path \<Rightarrow> bool" where
  \<comment> \<open>\<open>p.exists()\<close>\<close>
  "path_exists fs p \<longleftrightarrow> map_of fs p \<noteq> None"

definition parents :: "path \<Rightarrow> path list" where
  \<comment> \<open>the ancestors of a path, outermost first\<close>
  "parents p = map (\<lambda>i. take i p) (filter (\<lambda>i. p ! i = CHR ''/'') [1..<length p])"

definition is_dir_or_absent :: "filesystem \<Rightarrow> path \<Rightarrow> bool" where
  "is_dir_or_absent fs a = (case map_of fs a of None \<Rightarrow> True | Some Dir \<Rightarrow> True | Some e \<Rightarrow> False)"

definition mkdir_parents :: "filesystem \<Rightarrow> path \<Rightarrow> py_error + filesystem" where
  \<comment> \<open>\<open>p.mkdir(parents=True, exist_ok=False)\<close>\<close>
  "mkdir_parents fs p =
     (if path_exists fs p then Inl FileExistsError
      else if \<not> list_all (is_dir_or_absent fs) (parents p) then Inl NotADirectoryError
      else Inr (map (\<lambda>a. (a, Dir)) (filter (\<lambda>a. \<not> path_exists fs a) (parents p @ [p])) @ fs))"

definition path_name :: "path \<Rightarrow> string" where
  \<comment> \<open>\<open>p.name\<close>\<close>
  "path_name p = rev (takeWhile (\<lambda>c. c \<noteq> CHR ''/'') (rev p))"

definition path_parent :: "path \<Rightarrow> path" where
  \<comment> \<open>\<open>p.parent\<close>\<close>
  "path_parent p = take (length p - length (path_name p) - 1) p"

definition path_suffix :: "path \<Rightarrow> string" where
  \<comment> \<open>\<open>p.suffix\<close>: from the last dot of the name, unless that dot starts or ends the name\<close>
  "path_suffix p =
     (let name = path_name p; t = takeWhile (\<lambda>c. c \<noteq> CHR ''.'') (rev name)
      in if CHR ''.'' \<in> set name \<and> t \<noteq> [] \<and> length t + 1 < length name
         then CHR ''.'' # rev t else [])"

definition with_suffix_empty :: "path \<Rightarrow> path" where
  \<comment> \<open>\<open>p.with_suffix("")\<close>\<close>
  "with_suffix_empty p = take (length p - length (path_suffix p)) p"

definition make_archive :: "filesystem \<Rightarrow> path \<Rightarrow> path \<Rightarrow> filesystem" where
  \<comment> \<open>the zip file holds the files of the folder under the folder's name\<close>
  "make_archive fs folder zip_target =
     (let base_no_ext = with_suffix_empty zip_target;
          members = concat (map (\<lambda>(q, e). case e of
                       File c \<Rightarrow> (if prefix (folder @ ''/'') q
                                   then [(drop (length (path_parent folder) + 1) q, c)] else [])
                     | _ \<Rightarrow> []) fs)
      in (base_no_ext @ ''.zip'', Archive members) # fs)"

section \<open>Main\<close>

datatype event =
    Input string | Print string | Mkdir path | Capture "string list"
  | Write path string | MakeArchive path path

record outcome =
  exit_status :: int
  events :: "event list"
  fs_after :: filesystem

text \<open>The \<open>for i, block in enumerate(blocks, start=1)\<close> loop.\<close>

fun write_blocks ::
    "string \<Rightarrow> path \<Rightarrow> nat \<Rightarrow> string list \<Rightarrow> event list \<times> filesystem \<Rightarrow> event list \<times> filesystem" where
  "write_blocks base pg_subfolder i [] (ev, fs) = (ev, fs)"
| "write_blocks base pg_subfolder i (block # bs) (ev, fs) =
     (let fname = base @ ''-'' @ str_nat i @ ''.pg'';
          path = path_join pg_subfolder fname
      in write_blocks base pg_subfolder (i + 1) bs
           (ev @ [Write path block, Print (''Saved: '' @ [CHR 0x22] @ path @ [CHR 0x22])],
            (path, File block) # fs))"

text \<open>
  \<open>main\<close> for the file system at the start, the working directory, the line typed at
  the first prompt and the lines pasted before the interrupt. The result is \<open>None\<close>
  when an allocator does not return, \<open>Inl\<close> for an exception that nothing catches, and
  otherwise the exit status with the events in program order and the file system left.
\<close>

definition main ::
    "filesystem \<Rightarrow> path \<Rightarrow> string \<Rightarrow> string list \<Rightarrow> (py_error + outcome) option" where
  "main fs ROOT name_line lines =
     (let raw = strip name_line;
          base = sanitize_basename (if raw = [] then ''webwork-problems'' else raw);
          pg_dir = ''pg-folders/'' @ base
      in case unique_subfolder (path_exists fs) ROOT pg_dir of
           None \<Rightarrow> None
         | Some pg_subfolder \<Rightarrow>
            (case mkdir_parents fs pg_subfolder of
               Inl e \<Rightarrow> Some (Inl e)
             | Inr fs1 \<Rightarrow>
                (let big_text = capture_lines_until_ctrl_c lines;
                     ev = [Input ''Enter base filename (default: webwork-problems): '',
                           Mkdir pg_subfolder,
                           Print (''\<newline>\<newline>Created folder: '' @ [CHR 0x22] @ pg_dir @ [CHR 0x22] @ ''\<newline>''),
                           Print ''\<newline>Paste ALL problems now. Press Ctrl-C when finished.\<newline>'',
                           Capture lines,
                           Print ''\<newline>\<newline>Ctrl-C Pressed. Processing zip-files...\<newline>'']
                 in if strip big_text = []
                    then Some (Inr \<lparr>exit_status = 0,
                                    events = ev @ [Print ''No input detected. Nothing to do.''],
                                    fs_after = fs1\<rparr>)
                    else (case extract_pg_blocks_tokenized big_text of
                            Inl e \<Rightarrow> Some (Inl e)
                          | Inr bs \<Rightarrow>
                             if bs = []
                             then Some (Inr \<lparr>exit_status = 1,
                                    events = ev @ [Print (''No '' @ [CHR 0x27] @ ''DOCUMENT(); ... ENDDOCUMENT();''
                                                     @ [CHR 0x27] @ '' blocks found. Aborting.'')],
                                    fs_after = fs1\<rparr>)
                             else (case write_blocks base pg_subfolder 1 bs (ev, fs1) of
                                     (ev2, fs2) \<Rightarrow>
                                       (case unique_zip_path (path_exists fs2) ROOT base of
                                          None \<Rightarrow> None
                                        | Some zip_path \<Rightarrow>
                                            Some (Inr \<lparr>exit_status = 0,
                                              events = ev2 @ [MakeArchive pg_subfolder zip_path,
                                                 Print (''\<newline>Created zip: '' @ [CHR 0x22] @ zip_path @ [CHR 0x22]),
                                                 Print ''Done.''],
                                              fs_after = make_archive fs2 pg_subfolder zip_path\<rparr>)))))))"

section \<open>Notions used to state the properties\<close>

text \<open>
  The offset that the line of \<open>s\<close> holding offset \<open>e\<close> ends at (the offset of its newline,
  or the length of \<open>s\<close>), and the Block from the begin marker at \<open>start\<close> to the end of the
  line of the end marker at \<open>pos\<close>, closed by a newline.
\<close>

definition line_end :: "string \<Rightarrow> nat \<Rightarrow> nat" where
  "line_end s e = e + length (takeWhile (\<lambda>c. c \<noteq> CHR 0x0A) (drop e s))"

definition block_at :: "string \<Rightarrow> nat \<Rightarrow> nat \<Rightarrow> string" where
  "block_at s start pos =
     (let b = slice s start (line_end s (pos + length END_MARKER))
      in if endswith b [CHR 0x0A] then b else b @ [CHR 0x0A])"

text \<open>
  The counter and the Blocks after the tokens \<open>ts\<close> have been processed from the initial
  state (the loop never fails, see \<open>loop_total\<close>). The tokens \<open>seg\<close> behind the tokens
  \<open>pre\<close> are the tokens of one completed Block when the counter is zero before them,
  above zero between them and back at zero with a Block added after the last of them;
  they are a pending block when the counter is zero before them and above zero after
  each of them.
\<close>

definition level_after :: "string \<Rightarrow> (nat \<times> string) list \<Rightarrow> int" where
  "level_after s ts = (case loop s init_state ts of Inr st \<Rightarrow> level st | Inl e \<Rightarrow> 0)"

definition blocks_after :: "string \<Rightarrow> (nat \<times> string) list \<Rightarrow> string list" where
  "blocks_after s ts = (case loop s init_state ts of Inr st \<Rightarrow> blocks st | Inl e \<Rightarrow> [])"

definition completes_block :: "string \<Rightarrow> (nat \<times> string) list \<Rightarrow> (nat \<times> string) list \<Rightarrow> bool" where
  "completes_block s pre seg \<longleftrightarrow>
     level_after s pre = 0 \<and>
     (\<forall>k \<in> set [1..<length seg]. 0 < level_after s (pre @ take k seg)) \<and>
     level_after s (pre @ seg) = 0 \<and>
     blocks_after s (pre @ seg) \<noteq> blocks_after s pre"

definition pending_block :: "string \<Rightarrow> (nat \<times> string) list \<Rightarrow> (nat \<times> string) list \<Rightarrow> bool" where
  "pending_block s pre seg \<longleftrightarrow>
     level_after s pre = 0 \<and> seg \<noteq> [] \<and>
     (\<forall>k \<in> set [1..<Suc (length seg)]. 0 < level_after s (pre @ take k seg))"

text \<open>The \<open>k\<close>-th path that the folder allocator probes.\<close>

definition candidate :: "path \<Rightarrow> string \<Rightarrow> nat \<Rightarrow> path" where
  "candidate root base k = path_join root (base @ ''-'' @ str_nat k)"


text \<open>
  The base name that \<open>main\<close> derives from the line typed at the prompt, the events of
  \<open>main\<close> up to the start of processing, the Blocks that a list of events writes to
  files, the events that change the file system, and the \<open>k\<close>-th path that the zip
  allocator probes.
\<close>

definition chosen_base :: "string \<Rightarrow> string" where
  "chosen_base name_line =
     sanitize_basename (if strip name_line = [] then ''webwork-problems'' else strip name_line)"

definition prelude :: "string \<Rightarrow> path \<Rightarrow> string list \<Rightarrow> event list" where
  "prelude name_line pg_subfolder lines =
     [Input ''Enter base filename (default: webwork-problems): '',
      Mkdir pg_subfolder,
      Print (''\<newline>\<newline>Created folder: '' @ [CHR 0x22] @ (''pg-folders/'' @ chosen_base name_line)
               @ [CHR 0x22] @ ''\<newline>''),
      Print ''\<newline>Paste ALL problems now. Press Ctrl-C when finished.\<newline>'',
      Capture lines,
      Print ''\<newline>\<newline>Ctrl-C Pressed. Processing zip-files...\<newline>'']"

fun written :: "event list \<Rightarrow> string list" where
  "written [] = []"
| "written (Write p b # es) = b # written es"
| "written (e # es) = written es"

fun fs_events :: "event list \<Rightarrow> event list" where
  "fs_events [] = []"
| "fs_events (Mkdir p # es) = Mkdir p # fs_events es"
| "fs_events (Write p b # es) = Write p b # fs_events es"
| "fs_events (MakeArchive p z # es) = MakeArchive p z # fs_events es"
| "fs_events (e # es) = fs_events es"

definition zip_candidate :: "path \<Rightarrow> string \<Rightarrow> nat \<Rightarrow> path" where
  "zip_candidate root base k = path_join root (base @ ''-'' @ str_nat k @ ''.zip'')"

section \<open>The name sanitizer\<close>








lemma split_from_words_nonempty:
  "x \<in> set (split_from w s) \<Longrightarrow> x \<noteq> []"
proof (induction s arbitrary: w)
  case Nil
  then show ?case by (auto split: if_splits)
next
  case (Cons a s)
  show ?case
  proof (cases "isspace a")
    case True
    with Cons.prems have "(x = w \<and> w \<noteq> []) \<or> x \<in> set (split_from [] s)"
      by (auto split: if_splits)
    with Cons.IH[of "[]"] show ?thesis by auto
  next
    case False
    with Cons.prems have "x \<in> set (split_from (w @ [a]) s)" by simp
    from Cons.IH[OF this] show ?thesis .
  qed
qed






















section \<open>The path allocator\<close>

lemma str_nat_nonempty: "str_nat n \<noteq> []"
  by (subst str_nat.simps) simp

lemma digit_inj: "a < 10 \<Longrightarrow> b < 10 \<Longrightarrow> digit a = digit b \<Longrightarrow> a = b"
proof -
  assume "a < 10" "b < 10" "digit a = digit b"
  moreover have "distinct ''0123456789''" by simp
  moreover have "length ''0123456789'' = 10" by simp
  ultimately show "a = b" unfolding digit_def by (simp only: nth_eq_iff_index_eq)
qed

lemma str_nat_small: "n < 10 \<Longrightarrow> str_nat n = [digit n]"
  by (subst str_nat.simps) simp

lemma str_nat_large: "\<not> n < 10 \<Longrightarrow> str_nat n = str_nat (n div 10) @ [digit (n mod 10)]"
  by (subst str_nat.simps) simp

lemma str_nat_length_small: "length (str_nat n) = 1 \<longleftrightarrow> n < 10"
proof (cases "n < 10")
  case True
  then show ?thesis by (simp add: str_nat_small)
next
  case False
  have "0 < length (str_nat (n div 10))" using str_nat_nonempty[of "n div 10"] by simp
  with False show ?thesis by (simp add: str_nat_large)
qed

lemma str_nat_inj: "str_nat n = str_nat m \<Longrightarrow> n = m"
proof (induction n arbitrary: m rule: str_nat.induct)
  case (1 n)
  from "1.prems" have len: "length (str_nat n) = length (str_nat m)" by (rule arg_cong)
  show ?case
  proof (cases "n < 10")
    case True
    with len have m: "m < 10" using str_nat_length_small[of n] str_nat_length_small[of m] by simp
    have "[digit n] = [digit m]"
      using "1.prems" unfolding str_nat_small[OF True] str_nat_small[OF m] .
    then have "digit n = digit m" by (simp only: list.inject)
    then show ?thesis by (rule digit_inj[OF True m])
  next
    case False
    with len have m: "\<not> m < 10"
      using str_nat_length_small[of n] str_nat_length_small[of m] by simp
    have "str_nat (n div 10) @ [digit (n mod 10)] = str_nat (m div 10) @ [digit (m mod 10)]"
      using "1.prems" unfolding str_nat_large[OF False] str_nat_large[OF m] .
    then have a: "str_nat (n div 10) = str_nat (m div 10)"
      and b: "digit (n mod 10) = digit (m mod 10)" by (simp_all only: append1_eq_conv)
    from "1.IH"[OF False a] have d: "n div 10 = m div 10" .
    have "n mod 10 < 10" "m mod 10 < 10" by simp_all
    from digit_inj[OF this b] have e: "n mod 10 = m mod 10" .
    have "n = 10 * (n div 10) + n mod 10" by simp
    also have "\<dots> = 10 * (m div 10) + m mod 10" by (simp only: d e)
    also have "\<dots> = m" by simp
    finally show ?thesis .
  qed
qed

lemma candidate_inj: "candidate root base j = candidate root base k \<Longrightarrow> j = k"
  by (simp add: candidate_def path_join_def str_nat_inj)

lemma unique_subfolder_loop_finds:
  "j \<le> k \<Longrightarrow> \<not> exists (candidate root base k) \<Longrightarrow>
   (\<forall>i. j \<le> i \<and> i < k \<longrightarrow> exists (candidate root base i)) \<Longrightarrow>
   unique_subfolder_loop exists root base j = Some (candidate root base k)"
proof (induction "k - j" arbitrary: j)
  case 0
  then have "j = k" by simp
  with "0.prems"(2) show ?case
    by (subst unique_subfolder_loop.simps) (simp add: candidate_def)
next
  case (Suc d)
  then have lt: "j < k" by simp
  with Suc.prems(3) have ex: "exists (candidate root base j)" by simp
  have "unique_subfolder_loop exists root base (j + 1) = Some (candidate root base k)"
  proof (rule Suc.hyps(1))
    show "d = k - (j + 1)" using Suc.hyps(2) by simp
    show "j + 1 \<le> k" using lt by simp
    show "\<not> exists (candidate root base k)" by (rule Suc.prems(2))
    show "\<forall>i. j + 1 \<le> i \<and> i < k \<longrightarrow> exists (candidate root base i)"
      using Suc.prems(3) by simp
  qed
  with ex show ?case
    by (subst unique_subfolder_loop.simps) (simp add: candidate_def)
qed

lemma unique_subfolder_loop_result:
  assumes "unique_subfolder_loop exists root base j = Some p"
  shows "\<exists>k\<ge>j. p = candidate root base k \<and> \<not> exists p
       \<and> (\<forall>i. j \<le> i \<and> i < k \<longrightarrow> exists (candidate root base i))"
proof (rule unique_subfolder_loop.raw_induct[where P = "\<lambda>exists root base j p.
    \<exists>k\<ge>j. p = candidate root base k \<and> \<not> exists p
       \<and> (\<forall>i. j \<le> i \<and> i < k \<longrightarrow> exists (candidate root base i))", OF _ assms])
  fix f exists root base j p
  assume ih: "\<And>exists root base j p. f exists root base j = Some p \<Longrightarrow>
      \<exists>k\<ge>j. p = candidate root base k \<and> \<not> exists p
       \<and> (\<forall>i. j \<le> i \<and> i < k \<longrightarrow> exists (candidate root base i))"
    and eq: "(let q = path_join root (base @ ''-'' @ str_nat j)
      in if \<not> exists q then Some q else f exists root base (j + 1)) = Some p"
  show "\<exists>k\<ge>j. p = candidate root base k \<and> \<not> exists p
       \<and> (\<forall>i. j \<le> i \<and> i < k \<longrightarrow> exists (candidate root base i))"
  proof (cases "exists (candidate root base j)")
    case False
    with eq have "p = candidate root base j" by (simp add: candidate_def)
    with False show ?thesis by (intro exI[of _ j]) auto
  next
    case True
    with eq have "f exists root base (j + 1) = Some p" by (simp add: candidate_def)
    from ih[OF this] obtain k where k: "j + 1 \<le> k" "p = candidate root base k"
      "\<not> exists p" "\<forall>i. j + 1 \<le> i \<and> i < k \<longrightarrow> exists (candidate root base i)" by blast
    have "\<forall>i. j \<le> i \<and> i < k \<longrightarrow> exists (candidate root base i)"
    proof (intro allI impI)
      fix i assume i: "j \<le> i \<and> i < k"
      show "exists (candidate root base i)"
      proof (cases "i = j")
        case True
        with \<open>exists (candidate root base j)\<close> show ?thesis by simp
      next
        case False
        with i k(4) show ?thesis by simp
      qed
    qed
    with k show ?thesis by (intro exI[of _ k]) simp
  qed
qed

lemma finite_has_absent_candidate:
  assumes "finite {q. exists q}"
  shows "\<exists>k\<ge>1. \<not> exists (candidate root base k)"
proof (rule ccontr)
  assume "\<not> (\<exists>k\<ge>1. \<not> exists (candidate root base k))"
  then have "candidate root base ` {1..} \<subseteq> {q. exists q}" by auto
  with assms have "finite (candidate root base ` {1..})" by (rule finite_subset[rotated])
  moreover have "inj_on (candidate root base) {1..}"
    by (rule inj_onI) (rule candidate_inj)
  ultimately have "finite {1::nat..}" by (simp add: finite_image_iff)
  then show False by (simp add: infinite_Ici)
qed

lemma least_absent_candidate:
  assumes "\<exists>k\<ge>1. \<not> exists (candidate root base k)"
  shows "\<exists>k\<ge>1. \<not> exists (candidate root base k)
           \<and> (\<forall>i. 1 \<le> i \<and> i < k \<longrightarrow> exists (candidate root base i))"
proof -
  from assms have "\<exists>k. 1 \<le> k \<and> \<not> exists (candidate root base k)" by blast
  then obtain k where "1 \<le> k \<and> \<not> exists (candidate root base k)"
    "\<forall>i<k. \<not> (1 \<le> i \<and> \<not> exists (candidate root base i))"
    unfolding exists_least_iff[of "\<lambda>k. 1 \<le> k \<and> \<not> exists (candidate root base k)"] by blast
  then show ?thesis by (intro exI[of _ k]) auto
qed

lemma str_nat_1: "str_nat 1 = ''1''"
  by (simp add: str_nat_small digit_def)

lemma str_nat_Suc_0: "str_nat (Suc 0) = ''1''"
  using str_nat_1 by simp

lemma str_nat_2: "str_nat 2 = ''2''"
  by (simp add: str_nat_small digit_def)

lemma unique_subfolder_cases:
  "unique_subfolder exists root base =
     (if \<not> exists (path_join root base) then Some (path_join root base)
      else unique_subfolder_loop exists root base 1)"
  by (simp add: unique_subfolder_def Let_def)

text \<open>
  C8: the folder allocator returns \<open>root/base\<close> when that path is absent, and otherwise
  \<open>root/base-k\<close> for the smallest \<open>k \<ge> 1\<close> whose path is absent (\<open>base-1\<close> when \<open>base\<close>
  exists, \<open>base-2\<close> when \<open>base-1\<close> exists too); whatever it returns is absent and is one
  of these paths; and it returns whenever only finitely many paths exist.
\<close>

theorem unique_subfolder_first_absent:
  "(\<not> exists (path_join root base) \<longrightarrow>
      unique_subfolder exists root base = Some (path_join root base))
   \<and> (exists (path_join root base) \<and> 1 \<le> k
        \<and> \<not> exists (path_join root (base @ ''-'' @ str_nat k))
        \<and> (\<forall>j. 1 \<le> j \<and> j < k \<longrightarrow> exists (path_join root (base @ ''-'' @ str_nat j))) \<longrightarrow>
      unique_subfolder exists root base = Some (path_join root (base @ ''-'' @ str_nat k)))
   \<and> (exists (path_join root base) \<and> \<not> exists (path_join root (base @ ''-1'')) \<longrightarrow>
      unique_subfolder exists root base = Some (path_join root (base @ ''-1'')))
   \<and> (exists (path_join root base) \<and> exists (path_join root (base @ ''-1''))
        \<and> \<not> exists (path_join root (base @ ''-2'')) \<longrightarrow>
      unique_subfolder exists root base = Some (path_join root (base @ ''-2'')))
   \<and> (unique_subfolder exists root base = Some p \<longrightarrow>
      \<not> exists p
      \<and> (p = path_join root base
         \<or> exists (path_join root base)
           \<and> (\<exists>n\<ge>1. p = path_join root (base @ ''-'' @ str_nat n)
                \<and> (\<forall>j. 1 \<le> j \<and> j < n \<longrightarrow> exists (path_join root (base @ ''-'' @ str_nat j))))))
   \<and> (finite {q. exists q} \<longrightarrow> (\<exists>r. unique_subfolder exists root base = Some r))"
  (is "?A \<and> ?B \<and> ?C \<and> ?D \<and> ?E \<and> ?F")
proof -
  have A: ?A by (simp add: unique_subfolder_cases)
  have B: ?B
    using unique_subfolder_loop_finds[of 1 k exists root base]
    by (simp add: unique_subfolder_cases candidate_def)
  have C: ?C
    using unique_subfolder_loop_finds[of 1 1 exists root base]
    by (simp add: unique_subfolder_cases candidate_def str_nat_Suc_0)
  have D: ?D
  proof (rule impI)
    assume h: "exists (path_join root base) \<and> exists (path_join root (base @ ''-1''))
        \<and> \<not> exists (path_join root (base @ ''-2''))"
    have "\<forall>i. 1 \<le> i \<and> i < 2 \<longrightarrow> exists (candidate root base i)"
    proof (intro allI impI)
      fix i :: nat assume "1 \<le> i \<and> i < 2"
      then have "i = 1" by simp
      with h show "exists (candidate root base i)" by (simp add: candidate_def str_nat_Suc_0)
    qed
    with h unique_subfolder_loop_finds[of 1 2 exists root base]
    show "unique_subfolder exists root base = Some (path_join root (base @ ''-2''))"
      by (simp add: unique_subfolder_cases candidate_def str_nat_2)
  qed
  have E: ?E
  proof (rule impI)
    assume r: "unique_subfolder exists root base = Some p"
    show "\<not> exists p
      \<and> (p = path_join root base
         \<or> exists (path_join root base)
           \<and> (\<exists>n\<ge>1. p = path_join root (base @ ''-'' @ str_nat n)
                \<and> (\<forall>j. 1 \<le> j \<and> j < n \<longrightarrow> exists (path_join root (base @ ''-'' @ str_nat j)))))"
    proof (cases "exists (path_join root base)")
      case False
      with r show ?thesis by (simp add: unique_subfolder_cases)
    next
      case True
      with r have "unique_subfolder_loop exists root base 1 = Some p"
        by (simp add: unique_subfolder_cases)
      from unique_subfolder_loop_result[OF this] True show ?thesis
        unfolding candidate_def by blast
    qed
  qed
  have F: ?F
  proof (rule impI)
    assume "finite {q. exists q}"
    from least_absent_candidate[OF finite_has_absent_candidate[OF this, of root base]]
    obtain n where n: "1 \<le> n" "\<not> exists (candidate root base n)"
      "\<forall>i. 1 \<le> i \<and> i < n \<longrightarrow> exists (candidate root base i)" by blast
    from unique_subfolder_loop_finds[OF n]
    show "\<exists>r. unique_subfolder exists root base = Some r"
      by (simp add: unique_subfolder_cases)
  qed
  from A B C D E F show ?thesis by (intro conjI)
qed

theorem unique_subfolder_first_absent_witness:
  "unique_subfolder (\<lambda>p. p \<in> set [''/r/a'']) ''/r'' ''b'' = Some ''/r/b''
   \<and> unique_subfolder (\<lambda>p. p \<in> set [''/r/b'']) ''/r'' ''b'' = Some ''/r/b-1''
   \<and> unique_subfolder (\<lambda>p. p \<in> set [''/r/b'', ''/r/b-1'']) ''/r'' ''b'' = Some ''/r/b-2''
   \<and> unique_subfolder (\<lambda>p. p \<in> set [''/r/b'', ''/r/b-1'', ''/r/b-2'']) ''/r'' ''b''
       = Some ''/r/b-3''
   \<and> ''/r/b-3'' \<notin> set [''/r/b'', ''/r/b-1'', ''/r/b-2'']
   \<and> (\<exists>r. unique_subfolder (\<lambda>p. p \<in> set [''/r/b'', ''/r/b-1'']) ''/r'' ''b'' = Some r)"
proof -
  have s3: "str_nat 3 = ''3''" by (simp add: str_nat_small digit_def)
  have h4: "\<forall>j. 1 \<le> j \<and> j < 3 \<longrightarrow>
      path_join ''/r'' (''b'' @ ''-'' @ str_nat j) \<in> set [''/r/b'', ''/r/b-1'', ''/r/b-2'']"
  proof (intro allI impI)
    fix j :: nat assume "1 \<le> j \<and> j < 3"
    then have "j = 1 \<or> j = 2" by arith
    then show "path_join ''/r'' (''b'' @ ''-'' @ str_nat j) \<in> set [''/r/b'', ''/r/b-1'', ''/r/b-2'']"
      by (elim disjE) (simp_all add: path_join_def str_nat_Suc_0 str_nat_2)
  qed
  note w1 = unique_subfolder_first_absent[where exists = "\<lambda>p. p \<in> set [''/r/a'']"
      and root = "''/r''" and base = "''b''", THEN conjunct1]
  note w2 = unique_subfolder_first_absent[where exists = "\<lambda>p. p \<in> set [''/r/b'']"
      and root = "''/r''" and base = "''b''", THEN conjunct2, THEN conjunct2, THEN conjunct1]
  note w3 = unique_subfolder_first_absent[where exists = "\<lambda>p. p \<in> set [''/r/b'', ''/r/b-1'']"
      and root = "''/r''" and base = "''b''", THEN conjunct2, THEN conjunct2, THEN conjunct2]
  note w4 = unique_subfolder_first_absent[
      where exists = "\<lambda>p. p \<in> set [''/r/b'', ''/r/b-1'', ''/r/b-2'']"
      and root = "''/r''" and base = "''b''" and k = 3 and p = "''/r/b-3''",
      THEN conjunct2]
  have 1: "unique_subfolder (\<lambda>p. p \<in> set [''/r/a'']) ''/r'' ''b'' = Some ''/r/b''"
    using w1 by (simp add: path_join_def)
  have 2: "unique_subfolder (\<lambda>p. p \<in> set [''/r/b'']) ''/r'' ''b'' = Some ''/r/b-1''"
    using w2 by (simp add: path_join_def)
  have 3: "unique_subfolder (\<lambda>p. p \<in> set [''/r/b'', ''/r/b-1'']) ''/r'' ''b'' = Some ''/r/b-2''"
    using w3[THEN conjunct1] by (simp add: path_join_def)
  have 4: "unique_subfolder (\<lambda>p. p \<in> set [''/r/b'', ''/r/b-1'', ''/r/b-2'']) ''/r'' ''b''
       = Some ''/r/b-3''"
    using w4[THEN conjunct1] h4 by (simp add: path_join_def s3)
  have 5: "''/r/b-3'' \<notin> set [''/r/b'', ''/r/b-1'', ''/r/b-2'']"
    using w4[THEN conjunct2, THEN conjunct2, THEN conjunct2, THEN conjunct1] 4 by blast
  have 6: "\<exists>r. unique_subfolder (\<lambda>p. p \<in> set [''/r/b'', ''/r/b-1'']) ''/r'' ''b'' = Some r"
    using w3[THEN conjunct2, THEN conjunct2] by simp
  show ?thesis by (rule conjI[OF 1 conjI[OF 2 conjI[OF 3 conjI[OF 4 conjI[OF 5 6]]]]])
qed

section \<open>The tokens\<close>

lemma BEGIN_len: "length BEGIN_MARKER = 11" by (simp add: BEGIN_MARKER_def)
lemma END_len: "length END_MARKER = 14" by (simp add: END_MARKER_def)
lemma BEGIN_neq_END: "BEGIN_MARKER \<noteq> END_MARKER" by (simp add: BEGIN_MARKER_def END_MARKER_def)

lemma prefix_BEGIN_nonempty: "prefix BEGIN_MARKER s \<Longrightarrow> s \<noteq> []"
  by (auto simp: BEGIN_MARKER_def)

lemma prefix_END_nonempty: "prefix END_MARKER s \<Longrightarrow> s \<noteq> []"
  by (auto simp: END_MARKER_def)

lemma prefix_END_not_BEGIN: "prefix END_MARKER s \<Longrightarrow> \<not> prefix BEGIN_MARKER s"
  by (auto simp: prefix_def BEGIN_MARKER_def END_MARKER_def)

lemma finditer_Nil: "finditer pos [] = []"
  by (subst finditer.simps) simp

lemma finditer_begin:
  "prefix BEGIN_MARKER s \<Longrightarrow>
   finditer pos s =
     (pos, BEGIN_MARKER) # finditer (pos + length BEGIN_MARKER) (drop (length BEGIN_MARKER) s)"
  by (subst finditer.simps) (simp add: prefix_BEGIN_nonempty)

lemma finditer_end:
  "prefix END_MARKER s \<Longrightarrow>
   finditer pos s =
     (pos, END_MARKER) # finditer (pos + length END_MARKER) (drop (length END_MARKER) s)"
  by (subst finditer.simps) (simp add: prefix_END_nonempty prefix_END_not_BEGIN)

lemma finditer_skip:
  "s \<noteq> [] \<Longrightarrow> \<not> prefix BEGIN_MARKER s \<Longrightarrow> \<not> prefix END_MARKER s \<Longrightarrow>
   finditer pos s = finditer (pos + 1) (tl s)"
  by (subst finditer.simps) simp

lemma finditer_cases [case_names Nil Begin End Skip]:
  assumes "s = [] \<Longrightarrow> P"
    and "prefix BEGIN_MARKER s \<Longrightarrow> P"
    and "prefix END_MARKER s \<Longrightarrow> \<not> prefix BEGIN_MARKER s \<Longrightarrow> P"
    and "s \<noteq> [] \<Longrightarrow> \<not> prefix BEGIN_MARKER s \<Longrightarrow> \<not> prefix END_MARKER s \<Longrightarrow> P"
  shows P
  using assms by blast

lemma finditer_sound:
  "(p, t) \<in> set (finditer pos s) \<Longrightarrow>
   (t = BEGIN_MARKER \<or> t = END_MARKER) \<and> pos \<le> p \<and> prefix t (drop (p - pos) s)"
proof (induction pos s rule: finditer.induct)
  case (1 pos s)
  show ?case
  proof (cases s rule: finditer_cases)
    case Nil
    with "1.prems" show ?thesis by (simp add: finditer_Nil)
  next
    case Begin
    let ?n = "length BEGIN_MARKER"
    from "1.prems" Begin consider "p = pos" "t = BEGIN_MARKER"
      | "(p, t) \<in> set (finditer (pos + ?n) (drop ?n s))"
      by (auto simp: finditer_begin)
    then show ?thesis
    proof cases
      case 1
      with Begin show ?thesis by simp
    next
      case 2
      from "1.IH"(1)[OF prefix_BEGIN_nonempty[OF Begin] Begin 2]
      have ih: "t = BEGIN_MARKER \<or> t = END_MARKER" "pos + ?n \<le> p"
        "prefix t (drop (p - (pos + ?n)) (drop ?n s))"
        by blast+
      from ih(2) have "p - (pos + ?n) + ?n = p - pos" by arith
      then have "drop (p - (pos + ?n)) (drop ?n s) = drop (p - pos) s"
        by (simp only: drop_drop)
      with ih show ?thesis by simp
    qed
  next
    case End
    let ?n = "length END_MARKER"
    from "1.prems" End consider "p = pos" "t = END_MARKER"
      | "(p, t) \<in> set (finditer (pos + ?n) (drop ?n s))"
      by (auto simp: finditer_end)
    then show ?thesis
    proof cases
      case 1
      with End show ?thesis by simp
    next
      case 2
      from "1.IH"(2)[OF prefix_END_nonempty[OF End(1)] End(2) End(1) 2]
      have ih: "t = BEGIN_MARKER \<or> t = END_MARKER" "pos + ?n \<le> p"
        "prefix t (drop (p - (pos + ?n)) (drop ?n s))"
        by blast+
      from ih(2) have "p - (pos + ?n) + ?n = p - pos" by arith
      then have "drop (p - (pos + ?n)) (drop ?n s) = drop (p - pos) s"
        by (simp only: drop_drop)
      with ih show ?thesis by simp
    qed
  next
    case Skip
    with "1.prems" have "(p, t) \<in> set (finditer (pos + 1) (tl s))"
      by (simp add: finditer_skip)
    from "1.IH"(3)[OF Skip this]
    have ih: "t = BEGIN_MARKER \<or> t = END_MARKER" "pos + 1 \<le> p"
      "prefix t (drop (p - (pos + 1)) (tl s))"
      by blast+
    from ih(2) have "Suc (p - (pos + 1)) = p - pos" by arith
    then have "drop (p - (pos + 1)) (tl s) = drop (p - pos) s"
      by (simp only: drop_Suc[symmetric])
    with ih show ?thesis by simp
  qed
qed


lemma less_11_cases:
  "i < (11::nat) \<Longrightarrow> i = 0 \<or> i = 1 \<or> i = 2 \<or> i = 3 \<or> i = 4 \<or> i = 5 \<or> i = 6 \<or> i = 7 \<or> i = 8 \<or> i = 9 \<or> i = 10"
  by arith

lemma less_14_cases:
  "i < (14::nat) \<Longrightarrow> i = 0 \<or> i = 1 \<or> i = 2 \<or> i = 3 \<or> i = 4 \<or> i = 5 \<or> i = 6 \<or> i = 7 \<or> i = 8 \<or> i = 9 \<or> i = 10
     \<or> i = 11 \<or> i = 12 \<or> i = 13"
  by arith

lemma END_not_inside_BEGIN:
  assumes "prefix BEGIN_MARKER s" and "prefix END_MARKER (drop i s)"
  shows "length BEGIN_MARKER \<le> i"
proof (rule ccontr)
  assume "\<not> length BEGIN_MARKER \<le> i"
  then have "i < 11" by (simp add: BEGIN_len)
  from assms(1) obtain r where s: "s = ''DOCUMENT();'' @ r"
    by (auto simp: prefix_def BEGIN_MARKER_def)
  from less_11_cases[OF \<open>i < 11\<close>] assms(2) show False
    unfolding s END_MARKER_def by (elim disjE) simp_all
qed

lemma END_not_inside_END:
  assumes "prefix END_MARKER s" and "prefix END_MARKER (drop i s)" and "i \<noteq> 0"
  shows "length END_MARKER \<le> i"
proof (rule ccontr)
  assume "\<not> length END_MARKER \<le> i"
  then have "i < 14" by (simp add: END_len)
  from assms(1) obtain r where s: "s = ''ENDDOCUMENT();'' @ r"
    by (auto simp: prefix_def END_MARKER_def)
  from less_14_cases[OF \<open>i < 14\<close>] assms(2,3) show False
    unfolding s END_MARKER_def by (elim disjE) simp_all
qed

lemma finditer_end_complete:
  "prefix END_MARKER (drop i s) \<Longrightarrow> (pos + i, END_MARKER) \<in> set (finditer pos s)"
proof (induction pos s arbitrary: i rule: finditer.induct)
  case (1 pos s)
  show ?case
  proof (cases s rule: finditer_cases)
    case Nil
    with "1.prems" show ?thesis by (simp add: END_MARKER_def)
  next
    case Begin
    let ?n = "length BEGIN_MARKER"
    from END_not_inside_BEGIN[OF Begin "1.prems"] have le: "?n \<le> i" .
    then have "drop (i - ?n) (drop ?n s) = drop i s" by simp
    with "1.prems" have "prefix END_MARKER (drop (i - ?n) (drop ?n s))" by simp
    from "1.IH"(1)[OF prefix_BEGIN_nonempty[OF Begin] Begin this]
    have "(pos + ?n + (i - ?n), END_MARKER) \<in> set (finditer (pos + ?n) (drop ?n s))" .
    moreover from le have "pos + ?n + (i - ?n) = pos + i" by arith
    ultimately show ?thesis by (simp add: finditer_begin[OF Begin])
  next
    case End
    let ?n = "length END_MARKER"
    show ?thesis
    proof (cases "i = 0")
      case True
      then show ?thesis by (simp add: finditer_end[OF End(1)])
    next
      case False
      from END_not_inside_END[OF End(1) "1.prems" False] have le: "?n \<le> i" .
      then have "drop (i - ?n) (drop ?n s) = drop i s" by simp
      with "1.prems" have "prefix END_MARKER (drop (i - ?n) (drop ?n s))" by simp
      from "1.IH"(2)[OF prefix_END_nonempty[OF End(1)] End(2) End(1) this]
      have "(pos + ?n + (i - ?n), END_MARKER) \<in> set (finditer (pos + ?n) (drop ?n s))" .
      moreover from le have "pos + ?n + (i - ?n) = pos + i" by arith
      ultimately show ?thesis by (simp add: finditer_end[OF End(1)])
    qed
  next
    case Skip
    from Skip(3) "1.prems" have "i \<noteq> 0" by (cases i) auto
    then obtain j where i: "i = Suc j" by (cases i) auto
    with "1.prems" have "prefix END_MARKER (drop j (tl s))" by (simp add: drop_Suc)
    from "1.IH"(3)[OF Skip this] i show ?thesis
      by (simp add: finditer_skip[OF Skip])
  qed
qed

lemma finditer_embedded_begin:
  "prefix END_MARKER (drop i s) \<Longrightarrow> (pos + i + 3, BEGIN_MARKER) \<notin> set (finditer pos s)"
proof (induction pos s arbitrary: i rule: finditer.induct)
  case (1 pos s)
  show ?case
  proof (cases s rule: finditer_cases)
    case Nil
    then show ?thesis by (simp add: finditer_Nil)
  next
    case Begin
    let ?n = "length BEGIN_MARKER"
    from END_not_inside_BEGIN[OF Begin "1.prems"] have le: "?n \<le> i" .
    then have "drop (i - ?n) (drop ?n s) = drop i s" by simp
    with "1.prems" have "prefix END_MARKER (drop (i - ?n) (drop ?n s))" by simp
    from "1.IH"(1)[OF prefix_BEGIN_nonempty[OF Begin] Begin this]
    have "(pos + ?n + (i - ?n) + 3, BEGIN_MARKER) \<notin> set (finditer (pos + ?n) (drop ?n s))" .
    moreover from le have "pos + ?n + (i - ?n) + 3 = pos + i + 3" by arith
    ultimately show ?thesis by (simp add: finditer_begin[OF Begin])
  next
    case End
    let ?n = "length END_MARKER"
    show ?thesis
    proof (cases "i = 0")
      case True
      have "(pos + 3, BEGIN_MARKER) \<notin> set (finditer (pos + ?n) (drop ?n s))"
        using finditer_sound[of "pos + 3" BEGIN_MARKER "pos + ?n" "drop ?n s"]
        by (auto simp: END_len)
      with True show ?thesis by (simp add: finditer_end[OF End(1)] BEGIN_neq_END)
    next
      case False
      from END_not_inside_END[OF End(1) "1.prems" False] have le: "?n \<le> i" .
      then have "drop (i - ?n) (drop ?n s) = drop i s" by simp
      with "1.prems" have "prefix END_MARKER (drop (i - ?n) (drop ?n s))" by simp
      from "1.IH"(2)[OF prefix_END_nonempty[OF End(1)] End(2) End(1) this]
      have "(pos + ?n + (i - ?n) + 3, BEGIN_MARKER) \<notin> set (finditer (pos + ?n) (drop ?n s))" .
      moreover from le have "pos + ?n + (i - ?n) + 3 = pos + i + 3" by arith
      ultimately show ?thesis by (simp add: finditer_end[OF End(1)] BEGIN_neq_END)
    qed
  next
    case Skip
    from Skip(3) "1.prems" have "i \<noteq> 0" by (cases i) auto
    then obtain j where i: "i = Suc j" by (cases i) auto
    with "1.prems" have "prefix END_MARKER (drop j (tl s))" by (simp add: drop_Suc)
    from "1.IH"(3)[OF Skip this] i show ?thesis
      by (simp add: finditer_skip[OF Skip])
  qed
qed

lemma finditer_sorted:
  "sorted_wrt (\<lambda>a b. fst a + length (snd a) \<le> fst b) (finditer pos s)"
proof (induction pos s rule: finditer.induct)
  case (1 pos s)
  show ?case
  proof (cases s rule: finditer_cases)
    case Nil
    then show ?thesis by (simp add: finditer_Nil)
  next
    case Begin
    let ?n = "length BEGIN_MARKER"
    have "\<forall>b \<in> set (finditer (pos + ?n) (drop ?n s)). pos + ?n \<le> fst b"
      using finditer_sound[of _ _ "pos + ?n" "drop ?n s"] by (metis prod.collapse)
    with "1.IH"(1)[OF prefix_BEGIN_nonempty[OF Begin] Begin] show ?thesis
      by (simp add: finditer_begin[OF Begin])
  next
    case End
    let ?n = "length END_MARKER"
    have "\<forall>b \<in> set (finditer (pos + ?n) (drop ?n s)). pos + ?n \<le> fst b"
      using finditer_sound[of _ _ "pos + ?n" "drop ?n s"] by (metis prod.collapse)
    with "1.IH"(2)[OF prefix_END_nonempty[OF End(1)] End(2) End(1)] show ?thesis
      by (simp add: finditer_end[OF End(1)])
  next
    case Skip
    with "1.IH"(3)[OF Skip] show ?thesis by (simp add: finditer_skip[OF Skip])
  qed
qed

section \<open>The loop of the extractor\<close>

lemma extend_eol_line_end: "extend_eol s e = Inr (line_end s e)"
proof (induction s e rule: extend_eol.induct)
  case (1 s e)
  show ?case
  proof (cases "e < length s")
    case False
    then show ?thesis by (subst extend_eol.simps) (simp add: line_end_def)
  next
    case True
    then have d: "drop e s = s ! e # drop (Suc e) s"
      by (simp add: Cons_nth_drop_Suc)
    show ?thesis
    proof (cases "s ! e = CHR 0x0A")
      case True
      with \<open>e < length s\<close> d show ?thesis
        by (subst extend_eol.simps) (simp add: getitem_def line_end_def)
    next
      case False
      with \<open>e < length s\<close> have "extend_eol s (e + 1) = Inr (line_end s (e + 1))"
        using "1.IH"[of "s ! e"] by (simp add: getitem_def)
      with False \<open>e < length s\<close> d show ?thesis
        by (subst extend_eol.simps) (simp add: getitem_def line_end_def)
    qed
  qed
qed

lemma step_begin:
  "step s st (pos, BEGIN_MARKER) =
     Inr (st\<lparr>current_start := (if level st = 0 then Some pos else current_start st),
             level := level st + 1\<rparr>)"
  by (simp add: step_def BEGIN_MARKER_def)

lemma step_end_ignored:
  "tok \<noteq> BEGIN_MARKER \<Longrightarrow> level st \<le> 0 \<Longrightarrow> step s st (pos, tok) = Inr st"
  by (simp add: step_def BEGIN_MARKER_def)


lemma step_end_close:
  "tok \<noteq> BEGIN_MARKER \<Longrightarrow> level st = 1 \<Longrightarrow> current_start st = Some start \<Longrightarrow>
   step s st (pos, tok) =
     Inr (st\<lparr>level := 0, blocks := blocks st @ [block_at s start pos], current_start := None\<rparr>)"
  by (simp add: step_def BEGIN_MARKER_def END_MARKER_def Let_def extend_eol_line_end block_at_def)


lemma step_total: "\<exists>st'. step s st t = Inr st'"
  by (cases t) (simp add: step_def Let_def extend_eol_line_end split: option.splits)

lemma loop_total: "\<exists>st'. loop s st ts = Inr st'"
proof (induction ts arbitrary: st)
  case Nil
  show ?case by simp
next
  case (Cons t ts)
  obtain st1 where "step s st t = Inr st1" using step_total by blast
  with Cons.IH[of st1] show ?case by simp
qed

lemma loop_append:
  "loop s st ts = Inr st1 \<Longrightarrow> loop s st (ts @ us) = loop s st1 us"
proof (induction ts arbitrary: st)
  case Nil
  then show ?case by simp
next
  case (Cons t ts)
  obtain st2 where st2: "step s st t = Inr st2" using step_total by blast
  with Cons.prems have "loop s st2 ts = Inr st1" by simp
  from Cons.IH[OF this] st2 show ?case by simp
qed

lemma loop_snoc:
  "loop s st ts = Inr st1 \<Longrightarrow> loop s st (ts @ [t]) = step s st1 t"
  by (simp add: loop_append split: sum.splits)

lemma step_level:
  "0 < level st \<Longrightarrow> step s st t = Inr st' \<Longrightarrow>
   level st' = level st + (if snd t = BEGIN_MARKER then 1 else - 1)"
  by (cases t)
     (auto simp: step_def Let_def extend_eol_line_end BEGIN_MARKER_def
           split: option.splits if_splits)

lemma step_blocks:
  "step s st t = Inr st' \<Longrightarrow> blocks st' = blocks st \<or> level st' = 0"
  by (cases t)
     (auto simp: step_def Let_def extend_eol_line_end split: option.splits if_splits)

lemma step_level_nonneg:
  "0 \<le> level st \<Longrightarrow> step s st t = Inr st' \<Longrightarrow> 0 \<le> level st'"
  by (cases t)
     (auto simp: step_def Let_def extend_eol_line_end split: option.splits if_splits)

lemma loop_pair:
  assumes "level st = 0"
  shows "loop s st ((p, BEGIN_MARKER) # (q, END_MARKER) # ts) =
         loop s (st\<lparr>level := 0, blocks := blocks st @ [block_at s p q], current_start := None\<rparr>) ts"
proof -
  let ?st1 = "st\<lparr>current_start := Some p, level := 1\<rparr>"
  have 1: "step s st (p, BEGIN_MARKER) = Inr ?st1"
    using assms by (simp add: step_begin)
  have 2: "step s ?st1 (q, END_MARKER) =
     Inr (?st1\<lparr>level := 0, blocks := blocks ?st1 @ [block_at s p q], current_start := None\<rparr>)"
    by (rule step_end_close) (simp_all add: BEGIN_neq_END[symmetric])
  show ?thesis by (simp add: 1 2)
qed

lemma loop_pairs:
  "level st = 0 \<Longrightarrow>
   \<exists>st'. loop s st (concat (map (\<lambda>(p, q). [(p, BEGIN_MARKER), (q, END_MARKER)]) pairs)) = Inr st'
      \<and> blocks st' = blocks st @ map (\<lambda>(p, q). block_at s p q) pairs \<and> level st' = 0"
proof (induction pairs arbitrary: st)
  case Nil
  then show ?case by simp
next
  case (Cons pq pairs)
  obtain p q where pq: "pq = (p, q)" by (cases pq)
  let ?st2 = "st\<lparr>level := 0, blocks := blocks st @ [block_at s p q], current_start := None\<rparr>"
  from Cons.IH[of ?st2] obtain st' where
    "loop s ?st2 (concat (map (\<lambda>(p, q). [(p, BEGIN_MARKER), (q, END_MARKER)]) pairs)) = Inr st'"
    "blocks st' = blocks ?st2 @ map (\<lambda>(p, q). block_at s p q) pairs" "level st' = 0"
    by auto
  with Cons.prems pq show ?case by (simp add: loop_pair del: loop.simps)
qed

lemma loop_level_balance:
  "(\<forall>k<length ts. \<exists>m. loop s st (take k ts) = Inr m \<and> 0 < level m) \<Longrightarrow>
   loop s st ts = Inr st' \<Longrightarrow>
   level st' = level st + int (length (filter (\<lambda>t. snd t = BEGIN_MARKER) ts))
                        - int (length (filter (\<lambda>t. snd t \<noteq> BEGIN_MARKER) ts))"
proof (induction ts arbitrary: st)
  case Nil
  then show ?case by simp
next
  case (Cons t ts)
  from Cons.prems(1)[rule_format, of 0] have pos: "0 < level st" by simp
  obtain st2 where st2: "step s st t = Inr st2" using step_total by blast
  have "\<forall>k<length ts. \<exists>m. loop s st2 (take k ts) = Inr m \<and> 0 < level m"
  proof (intro allI impI)
    fix k assume "k < length ts"
    with Cons.prems(1)[rule_format, of "Suc k"] st2
    show "\<exists>m. loop s st2 (take k ts) = Inr m \<and> 0 < level m" by simp
  qed
  moreover from Cons.prems(2) st2 have "loop s st2 ts = Inr st'" by simp
  ultimately have "level st' = level st2 + int (length (filter (\<lambda>t. snd t = BEGIN_MARKER) ts))
                        - int (length (filter (\<lambda>t. snd t \<noteq> BEGIN_MARKER) ts))"
    by (rule Cons.IH)
  with step_level[OF pos st2] show ?case by simp
qed

lemma loop_pending_no_output:
  "(\<forall>k. 0 < k \<and> k \<le> length ts \<longrightarrow> (\<exists>m. loop s st (take k ts) = Inr m \<and> 0 < level m)) \<Longrightarrow>
   loop s st ts = Inr st' \<Longrightarrow> blocks st' = blocks st"
proof (induction ts arbitrary: st' rule: rev_induct)
  case Nil
  then show ?case by simp
next
  case (snoc t ts)
  obtain m where m: "loop s st ts = Inr m" using loop_total by blast
  have "\<forall>k. 0 < k \<and> k \<le> length ts \<longrightarrow> (\<exists>m. loop s st (take k ts) = Inr m \<and> 0 < level m)"
  proof (intro allI impI)
    fix k assume "0 < k \<and> k \<le> length ts"
    with snoc.prems(1)[rule_format, of k]
    show "\<exists>m. loop s st (take k ts) = Inr m \<and> 0 < level m" by simp
  qed
  from snoc.IH[OF this m] have "blocks m = blocks st" .
  moreover from snoc.prems(2) m have st': "step s m t = Inr st'" by (simp add: loop_snoc)
  moreover from snoc.prems(1)[rule_format, of "Suc (length ts)"] snoc.prems(2)
  have "0 < level st'" by simp
  ultimately show ?case using step_blocks[OF st'] by auto
qed

lemma loop_stray_ends:
  "level st = 0 \<Longrightarrow> \<forall>t \<in> set es. snd t \<noteq> BEGIN_MARKER \<Longrightarrow> loop s st es = Inr st"
  by (induction es) (auto simp: step_end_ignored)

lemma loop_only_begins:
  "\<forall>t \<in> set bs. snd t = BEGIN_MARKER \<Longrightarrow>
   \<exists>st'. loop s st bs = Inr st' \<and> blocks st' = blocks st"
proof (induction bs arbitrary: st)
  case Nil
  then show ?case by simp
next
  case (Cons t bs)
  obtain p where t: "t = (p, BEGIN_MARKER)" using Cons.prems by (cases t) auto
  let ?st1 = "st\<lparr>current_start := (if level st = 0 then Some p else current_start st),
             level := level st + 1\<rparr>"
  from Cons.IH[of ?st1] Cons.prems obtain st' where
    "loop s ?st1 bs = Inr st'" "blocks st' = blocks ?st1" by auto
  then show ?case by (simp add: t step_begin)
qed
section \<open>The end-to-end example\<close>

text \<open>
  C3: on the text of the end-to-end example the extractor returns exactly two Blocks;
  the first one keeps the comment behind its end marker up to and including the
  newline of that line, the second one is the second document.
\<close>

theorem extract_end_to_end_example:
  "extract_pg_blocks_tokenized
     ''DOCUMENT();\<newline>foo\<newline>ENDDOCUMENT(); % comment\<newline>DOCUMENT();\<newline>bar\<newline>ENDDOCUMENT();\<newline>''
   = Inr [''DOCUMENT();\<newline>foo\<newline>ENDDOCUMENT(); % comment\<newline>'',
          ''DOCUMENT();\<newline>bar\<newline>ENDDOCUMENT();\<newline>'']"
  by code_simp
lemma finditer_offsets_increasing: "sorted_wrt (<) (map fst (finditer pos s))"
proof -
  have "sorted_wrt (\<lambda>a b. fst a < fst b) (finditer pos s)"
  proof (rule sorted_wrt_mono_rel[OF _ finditer_sorted])
    fix a b assume a: "a \<in> set (finditer pos s)" and "fst a + length (snd a) \<le> fst b"
    moreover from a finditer_sound[of "fst a" "snd a" pos s] have "0 < length (snd a)"
      by (auto simp: BEGIN_MARKER_def END_MARKER_def)
    ultimately show "fst a < fst b" by arith
  qed
  then show ?thesis by (simp add: sorted_wrt_map)
qed

lemma extract_blocks:
  "loop s init_state (finditer 0 s) = Inr st \<Longrightarrow> extract_pg_blocks_tokenized s = Inr (blocks st)"
  by (cases "finditer 0 s = []") (auto simp: extract_pg_blocks_tokenized_def init_state_def)

text \<open>
  C1: when the tokens of the text are \<open>N\<close> pairs of a begin marker and an end marker, one
  after the other, the extractor returns exactly \<open>N\<close> Blocks; the \<open>k\<close>-th Block is the
  Block of the \<open>k\<close>-th pair, and the offsets of the pairs increase through the text.
\<close>

theorem extract_sequence_of_pairs:
  assumes "finditer 0 s = concat (map (\<lambda>(p, q). [(p, BEGIN_MARKER), (q, END_MARKER)]) pairs)"
  shows "extract_pg_blocks_tokenized s = Inr (map (\<lambda>(p, q). block_at s p q) pairs)
       \<and> length (map (\<lambda>(p, q). block_at s p q) pairs) = length pairs
       \<and> sorted_wrt (<) (concat (map (\<lambda>(p, q). [p, q]) pairs))"
proof -
  have "level init_state = 0" by (simp add: init_state_def)
  from loop_pairs[OF this, of s pairs] assms obtain st where
    "loop s init_state (finditer 0 s) = Inr st"
    "blocks st = map (\<lambda>(p, q). block_at s p q) pairs"
    by (auto simp: init_state_def)
  then have "extract_pg_blocks_tokenized s = Inr (map (\<lambda>(p, q). block_at s p q) pairs)"
    by (simp add: extract_blocks)
  moreover have "map fst (finditer 0 s) = concat (map (\<lambda>(p, q). [p, q]) pairs)"
    unfolding assms by (induction pairs) auto
  with finditer_offsets_increasing[of 0 s]
  have "sorted_wrt (<) (concat (map (\<lambda>(p, q). [p, q]) pairs))" by simp
  ultimately show ?thesis by simp
qed

theorem extract_sequence_of_pairs_witness:
  "finditer 0 ''xDOCUMENT();aENDDOCUMENT();\<newline>DOCUMENT();bENDDOCUMENT();''
     = concat (map (\<lambda>(p, q). [(p, BEGIN_MARKER), (q, END_MARKER)]) [(1, 13), (28, 40)])
   \<and> extract_pg_blocks_tokenized ''xDOCUMENT();aENDDOCUMENT();\<newline>DOCUMENT();bENDDOCUMENT();''
     = Inr [''DOCUMENT();aENDDOCUMENT();\<newline>'', ''DOCUMENT();bENDDOCUMENT();\<newline>'']"
proof -
  let ?s = "''xDOCUMENT();aENDDOCUMENT();\<newline>DOCUMENT();bENDDOCUMENT();''"
  have h: "finditer 0 ?s
     = concat (map (\<lambda>(p, q). [(p, BEGIN_MARKER), (q, END_MARKER)]) [(1, 13), (28, 40)])"
    by code_simp
  have b1: "block_at ?s 1 13 = ''DOCUMENT();aENDDOCUMENT();\<newline>''" by code_simp
  have b2: "block_at ?s 28 40 = ''DOCUMENT();bENDDOCUMENT();\<newline>''" by code_simp
  from extract_sequence_of_pairs[OF h] b1 b2 h show ?thesis by simp
qed



lemma completes_block_iff:
  "completes_block s pre seg \<longleftrightarrow>
     level_after s pre = 0 \<and>
     (\<forall>k. 1 \<le> k \<and> k < length seg \<longrightarrow> 0 < level_after s (pre @ take k seg)) \<and>
     level_after s (pre @ seg) = 0 \<and>
     blocks_after s (pre @ seg) \<noteq> blocks_after s pre"
  by (simp only: completes_block_def set_upt Ball_def atLeastLessThan_iff)

lemma pending_block_iff:
  "pending_block s pre seg \<longleftrightarrow>
     level_after s pre = 0 \<and> seg \<noteq> [] \<and>
     (\<forall>k. 1 \<le> k \<and> k \<le> length seg \<longrightarrow> 0 < level_after s (pre @ take k seg))"
  by (simp only: pending_block_def set_upt Ball_def atLeastLessThan_iff less_Suc_eq_le)

lemma run_state: "\<exists>st. loop s init_state ts = Inr st \<and> level_after s ts = level st
    \<and> blocks_after s ts = blocks st"
  using loop_total[of s init_state ts] by (auto simp: level_after_def blocks_after_def)

lemma level_after_eq: "loop s init_state ts = Inr st \<Longrightarrow> level_after s ts = level st"
  by (simp add: level_after_def)

lemma blocks_after_eq: "loop s init_state ts = Inr st \<Longrightarrow> blocks_after s ts = blocks st"
  by (simp add: blocks_after_def)

lemma loop_level_nonneg: "0 \<le> level st \<Longrightarrow> loop s st ts = Inr st' \<Longrightarrow> 0 \<le> level st'"
proof (induction ts arbitrary: st)
  case Nil
  then show ?case by simp
next
  case (Cons t ts)
  obtain st2 where st2: "step s st t = Inr st2" using step_total by blast
  from step_level_nonneg[OF Cons.prems(1) st2] Cons.prems(2) st2 Cons.IH[of st2]
  show ?case by simp
qed

lemma level_after_nonneg: "0 \<le> level_after s ts"
proof -
  obtain st where "loop s init_state ts = Inr st" "level_after s ts = level st"
    using run_state by blast
  with loop_level_nonneg[of init_state s ts st] show ?thesis by (simp add: init_state_def)
qed

lemma step_current_start:
  "step s st t = Inr st' \<Longrightarrow> 0 < level st' \<Longrightarrow> 0 \<le> level st \<Longrightarrow>
   (0 < level st \<longrightarrow> current_start st \<noteq> None) \<Longrightarrow> current_start st' \<noteq> None"
  by (cases t)
     (auto simp: step_def Let_def extend_eol_line_end split: option.splits if_splits)

text \<open>While the counter is above zero a start is pending.\<close>

lemma loop_current_start:
  "loop s st ts = Inr st' \<Longrightarrow> 0 \<le> level st \<Longrightarrow>
   (0 < level st \<longrightarrow> current_start st \<noteq> None) \<Longrightarrow>
   0 \<le> level st' \<and> (0 < level st' \<longrightarrow> current_start st' \<noteq> None)"
proof (induction ts arbitrary: st)
  case Nil
  then show ?case by simp
next
  case (Cons t ts)
  obtain st2 where st2: "step s st t = Inr st2" using step_total by blast
  have l2: "0 \<le> level st2" using step_level_nonneg[OF Cons.prems(2) st2] .
  have c2: "0 < level st2 \<longrightarrow> current_start st2 \<noteq> None"
    using step_current_start[OF st2 _ Cons.prems(2,3)] by blast
  from Cons.prems(1) st2 have r2: "loop s st2 ts = Inr st'" by simp
  show ?case by (rule Cons.IH[OF r2 l2 c2])
qed

lemma segment_balanced:
  assumes l0: "level st0 = 0"
    and run: "loop s st0 seg = Inr st1"
    and l1: "level st1 = 0"
    and ne: "blocks st1 \<noteq> blocks st0"
    and inner: "\<forall>k \<in> {1..<length seg}. \<exists>m. loop s st0 (take k seg) = Inr m \<and> 0 < level m"
  shows "int (length (filter (\<lambda>t. snd t = BEGIN_MARKER) seg))
       = int (length (filter (\<lambda>t. snd t \<noteq> BEGIN_MARKER) seg))
       \<and> snd (hd seg) = BEGIN_MARKER \<and> seg \<noteq> []"
proof -
  from run ne obtain t rest where seg: "seg = t # rest" by (cases seg) auto
  obtain a where a: "step s st0 t = Inr a" using step_total by blast
  have beg: "snd t = BEGIN_MARKER"
  proof (rule ccontr)
    assume nb: "snd t \<noteq> BEGIN_MARKER"
    with l0 have a0: "step s st0 t = Inr st0"
      using step_end_ignored[of "snd t" st0 s "fst t"] by simp
    show False
    proof (cases rest)
      case Nil
      with run seg a0 ne show False by simp
    next
      case (Cons u us)
      with seg have "1 \<in> {1..<length seg}" by simp
      from inner[rule_format, OF this] seg a0 Cons l0 show False by simp
    qed
  qed
  then have "step s st0 (fst t, BEGIN_MARKER) = Inr a" using a by (cases t) simp
  then have a_def: "a = st0\<lparr>current_start := Some (fst t), level := 1\<rparr>"
    using l0 by (simp add: step_begin)
  have "\<forall>k<length rest. \<exists>m. loop s a (take k rest) = Inr m \<and> 0 < level m"
  proof (intro allI impI)
    fix k assume "k < length rest"
    then have "Suc k \<in> {1..<length seg}" using seg by simp
    from inner[rule_format, OF this] seg a
    show "\<exists>m. loop s a (take k rest) = Inr m \<and> 0 < level m" by simp
  qed
  moreover from run seg a have "loop s a rest = Inr st1" by simp
  ultimately have "level st1 = level a + int (length (filter (\<lambda>t. snd t = BEGIN_MARKER) rest))
                        - int (length (filter (\<lambda>t. snd t \<noteq> BEGIN_MARKER) rest))"
    by (rule loop_level_balance)
  with l1 a_def beg seg show ?thesis by simp
qed

lemma loop_blocks_grow:
  "loop s st ts = Inr st' \<Longrightarrow> \<exists>bs. blocks st' = blocks st @ bs"
proof (induction ts arbitrary: st)
  case Nil
  then show ?case by simp
next
  case (Cons t ts)
  obtain st2 where st2: "step s st t = Inr st2" using step_total by blast
  then have "\<exists>bs. blocks st2 = blocks st @ bs"
    by (cases t)
       (auto simp: step_def Let_def extend_eol_line_end split: option.splits if_splits)
  moreover from Cons.prems st2 Cons.IH[of st2] have "\<exists>bs. blocks st' = blocks st2 @ bs" by simp
  ultimately show ?case by auto
qed

lemma step_blocks_one:
  "step s st t = Inr st' \<Longrightarrow> blocks st' = blocks st \<or> (\<exists>b. blocks st' = blocks st @ [b])"
  by (cases t)
     (auto simp: step_def Let_def extend_eol_line_end split: option.splits if_splits)

lemma run_append:
  "loop s init_state pre = Inr st0 \<Longrightarrow> loop s init_state (pre @ seg) = loop s st0 seg"
  by (rule loop_append)

lemma completes_block_balanced:
  assumes toks: "set seg \<subseteq> set (finditer 0 s)" and cb: "completes_block s pre seg"
  shows "length (filter (\<lambda>t. snd t = BEGIN_MARKER) seg)
           = length (filter (\<lambda>t. snd t = END_MARKER) seg)
       \<and> (\<exists>b. blocks_after s (pre @ seg) = blocks_after s pre @ [b])"
proof -
  obtain st0 where st0: "loop s init_state pre = Inr st0" "level_after s pre = level st0"
    "blocks_after s pre = blocks st0" using run_state by blast
  obtain st1 where st1: "loop s init_state (pre @ seg) = Inr st1"
    "level_after s (pre @ seg) = level st1" "blocks_after s (pre @ seg) = blocks st1"
    using run_state by blast
  from st1(1) have run: "loop s st0 seg = Inr st1" by (simp add: run_append[OF st0(1)])
  from cb st0 st1 have l0: "level st0 = 0" and l1: "level st1 = 0"
    and ne: "blocks st1 \<noteq> blocks st0"
    by (simp_all add: completes_block_iff)
  have inner: "\<forall>k \<in> {1..<length seg}. \<exists>m. loop s st0 (take k seg) = Inr m \<and> 0 < level m"
  proof
    fix k assume k: "k \<in> {1..<length seg}"
    obtain m where m: "loop s init_state (pre @ take k seg) = Inr m"
      "level_after s (pre @ take k seg) = level m" using run_state by blast
    from cb have "\<forall>k. 1 \<le> k \<and> k < length seg \<longrightarrow> 0 < level_after s (pre @ take k seg)"
      unfolding completes_block_iff by blast
    from this[rule_format, of k] k have "0 < level_after s (pre @ take k seg)" by simp
    with m show "\<exists>m. loop s st0 (take k seg) = Inr m \<and> 0 < level m"
      by (simp add: run_append[OF st0(1)])
  qed
  from segment_balanced[OF l0 run l1 ne inner]
  have bal: "int (length (filter (\<lambda>t. snd t = BEGIN_MARKER) seg))
       = int (length (filter (\<lambda>t. snd t \<noteq> BEGIN_MARKER) seg))" and nonempty: "seg \<noteq> []"
    by simp_all
  have "filter (\<lambda>t. snd t \<noteq> BEGIN_MARKER) seg = filter (\<lambda>t. snd t = END_MARKER) seg"
  proof (rule filter_cong[OF refl])
    fix t assume "t \<in> set seg"
    with toks have "(fst t, snd t) \<in> set (finditer 0 s)" by auto
    from finditer_sound[OF this] show "(snd t \<noteq> BEGIN_MARKER) = (snd t = END_MARKER)"
      using BEGIN_neq_END by auto
  qed
  with bal have 1: "length (filter (\<lambda>t. snd t = BEGIN_MARKER) seg)
           = length (filter (\<lambda>t. snd t = END_MARKER) seg)" by simp
  from nonempty have seg: "seg = butlast seg @ [last seg]" by simp
  obtain m where m: "loop s st0 (butlast seg) = Inr m" using loop_total by blast
  have "\<forall>k. 0 < k \<and> k \<le> length (butlast seg) \<longrightarrow>
          (\<exists>m. loop s st0 (take k (butlast seg)) = Inr m \<and> 0 < level m)"
  proof (intro allI impI)
    fix k assume k: "0 < k \<and> k \<le> length (butlast seg)"
    moreover from nonempty have "0 < length seg" by simp
    ultimately have lt: "k < length seg" by (simp only: length_butlast) arith
    with k have "k \<in> {1..<length seg}" by auto
    from inner[rule_format, OF this] take_butlast[OF lt]
    show "\<exists>m. loop s st0 (take k (butlast seg)) = Inr m \<and> 0 < level m"
      by simp
  qed
  from loop_pending_no_output[OF this m] have bm: "blocks m = blocks st0" .
  from run have "step s m (last seg) = Inr st1"
    by (subst (asm) seg) (simp add: loop_snoc[OF m])
  from step_blocks_one[OF this] ne bm have "\<exists>b. blocks st1 = blocks st0 @ [b]" by auto
  with 1 st0 st1 show ?thesis by simp
qed

lemma pending_block_dropped:
  assumes toks: "finditer 0 s = pre @ seg" and pb: "pending_block s pre seg"
  shows "extract_pg_blocks_tokenized s = Inr (blocks_after s pre)"
proof -
  obtain st0 where st0: "loop s init_state pre = Inr st0" "blocks_after s pre = blocks st0"
    using run_state by blast
  obtain st1 where st1: "loop s st0 seg = Inr st1" using loop_total by blast
  have "\<forall>k. 0 < k \<and> k \<le> length seg \<longrightarrow> (\<exists>m. loop s st0 (take k seg) = Inr m \<and> 0 < level m)"
  proof (intro allI impI)
    fix k assume k: "0 < k \<and> k \<le> length seg"
    then have kk: "k \<in> {1..length seg}" by auto
    obtain m where m: "loop s init_state (pre @ take k seg) = Inr m"
      "level_after s (pre @ take k seg) = level m" using run_state by blast
    from pb have "\<forall>k. 1 \<le> k \<and> k \<le> length seg \<longrightarrow> 0 < level_after s (pre @ take k seg)"
      unfolding pending_block_iff by blast
    from this[rule_format, of k] k have "0 < level_after s (pre @ take k seg)" by simp
    with m show "\<exists>m. loop s st0 (take k seg) = Inr m \<and> 0 < level m"
      by (simp add: run_append[OF st0(1)])
  qed
  from loop_pending_no_output[OF this st1] have "blocks st1 = blocks st0" .
  moreover from st1 toks have "loop s init_state (finditer 0 s) = Inr st1"
    by (simp add: run_append[OF st0(1)])
  ultimately show ?thesis using st0(2) by (simp add: extract_blocks)
qed

lemma no_end_after_begin:
  assumes toks: "finditer 0 s = es @ bs"
    and es: "\<forall>t \<in> set es. snd t = END_MARKER" and bs: "\<forall>t \<in> set bs. snd t = BEGIN_MARKER"
  shows "extract_pg_blocks_tokenized s = Inr []"
proof -
  from es have "\<forall>t \<in> set es. snd t \<noteq> BEGIN_MARKER" using BEGIN_neq_END by auto
  then have 1: "loop s init_state es = Inr init_state"
    by (intro loop_stray_ends) (simp_all add: init_state_def)
  from loop_only_begins[OF bs, of s init_state] obtain st where
    "loop s init_state bs = Inr st" "blocks st = []" by (auto simp: init_state_def)
  with toks show ?thesis using extract_blocks[of s st] by (simp add: run_append[OF 1])
qed

lemma last_zero_level:
  "\<exists>k\<le>length ts. level_after s (take k ts) = 0 \<and>
        (\<forall>j. k < j \<and> j \<le> length ts \<longrightarrow> 0 < level_after s (take j ts))"
proof (induction ts rule: rev_induct)
  case Nil
  show ?case by (simp add: level_after_def init_state_def)
next
  case (snoc t ts)
  show ?case
  proof (cases "level_after s (ts @ [t]) = 0")
    case True
    then show ?thesis by (intro exI[of _ "length (ts @ [t])"]) simp
  next
    case False
    with level_after_nonneg[of s "ts @ [t]"] have pos: "0 < level_after s (ts @ [t])" by simp
    from snoc.IH obtain k where k: "k \<le> length ts" "level_after s (take k ts) = 0"
      "\<forall>j. k < j \<and> j \<le> length ts \<longrightarrow> 0 < level_after s (take j ts)" by blast
    have "\<forall>j. k < j \<and> j \<le> length (ts @ [t]) \<longrightarrow> 0 < level_after s (take j (ts @ [t]))"
    proof (intro allI impI)
      fix j assume j: "k < j \<and> j \<le> length (ts @ [t])"
      show "0 < level_after s (take j (ts @ [t]))"
      proof (cases "j \<le> length ts")
        case True
        with j k(3) show ?thesis by simp
      next
        case False
        with j have "j = Suc (length ts)" by simp
        with pos show ?thesis by simp
      qed
    qed
    with k(1,2) show ?thesis by (intro exI[of _ k]) simp
  qed
qed

lemma every_block_has_segment:
  "i < length (blocks_after s ts) \<Longrightarrow>
   \<exists>pre seg post. ts = pre @ seg @ post \<and> completes_block s pre seg
      \<and> blocks_after s (pre @ seg) = take (Suc i) (blocks_after s ts)"
proof (induction ts arbitrary: i rule: rev_induct)
  case Nil
  then show ?case by (simp add: blocks_after_def init_state_def)
next
  case (snoc t ts)
  obtain m where m: "loop s init_state ts = Inr m" "level_after s ts = level m"
    "blocks_after s ts = blocks m" using run_state by blast
  obtain st where st: "loop s init_state (ts @ [t]) = Inr st"
    "level_after s (ts @ [t]) = level st" "blocks_after s (ts @ [t]) = blocks st"
    using run_state by blast
  from st(1) have stp: "step s m t = Inr st" by (simp add: loop_snoc[OF m(1)])
  show ?case
  proof (cases "i < length (blocks m)")
    case True
    from snoc.IH[of i] True m(3) obtain pre seg post where
      d: "ts = pre @ seg @ post" "completes_block s pre seg"
      "blocks_after s (pre @ seg) = take (Suc i) (blocks m)" by auto
    from step_blocks_one[OF stp] True
    have "take (Suc i) (blocks st) = take (Suc i) (blocks m)" by auto
    with d st(3) have "ts @ [t] = pre @ seg @ (post @ [t]) \<and> completes_block s pre seg
      \<and> blocks_after s (pre @ seg) = take (Suc i) (blocks_after s (ts @ [t]))" by simp
    then show ?thesis by blast
  next
    case False
    with snoc.prems st(3) step_blocks_one[OF stp]
    obtain b where b: "blocks st = blocks m @ [b]" and i: "i = length (blocks m)" by auto
    from step_blocks[OF stp] b have lst: "level st = 0" by simp
    from last_zero_level[of ts s] obtain k where k: "k \<le> length ts"
      "level_after s (take k ts) = 0"
      "\<forall>j. k < j \<and> j \<le> length ts \<longrightarrow> 0 < level_after s (take j ts)" by blast
    let ?pre = "take k ts" and ?seg = "drop k ts @ [t]"
    have whole: "?pre @ ?seg = ts @ [t]" by simp
    have inner: "\<forall>j. 1 \<le> j \<and> j < length ?seg \<longrightarrow> 0 < level_after s (?pre @ take j ?seg)"
    proof (intro allI impI)
      fix j assume j: "1 \<le> j \<and> j < length ?seg"
      then have "take j ?seg = take j (drop k ts)" by simp
      then have "?pre @ take j ?seg = take (k + j) ts"
        by (simp add: take_add)
      moreover from j k(1) have "k < k + j \<and> k + j \<le> length ts" by auto
      ultimately show "0 < level_after s (?pre @ take j ?seg)" using k(3) by simp
    qed
    obtain st0 where st0: "loop s init_state ?pre = Inr st0"
      "blocks_after s ?pre = blocks st0" using run_state by blast
    have "loop s st0 (drop k ts) = Inr m"
      using m(1) run_append[OF st0(1), of "drop k ts"] by simp
    moreover have "\<forall>j. 0 < j \<and> j \<le> length (drop k ts) \<longrightarrow>
        (\<exists>m. loop s st0 (take j (drop k ts)) = Inr m \<and> 0 < level m)"
    proof (intro allI impI)
      fix j assume j: "0 < j \<and> j \<le> length (drop k ts)"
      obtain m' where m': "loop s init_state (take (k + j) ts) = Inr m'"
        "level_after s (take (k + j) ts) = level m'" using run_state by blast
      from j k(1) have "k < k + j \<and> k + j \<le> length ts" by auto
      with k(3)[rule_format, of "k + j"] m'(2) have "0 < level m'" by simp
      moreover have "take (k + j) ts = ?pre @ take j (drop k ts)" by (simp add: take_add)
      ultimately show "\<exists>m. loop s st0 (take j (drop k ts)) = Inr m \<and> 0 < level m"
        using m'(1) run_append[OF st0(1), of "take j (drop k ts)"] by simp
    qed
    ultimately have "blocks m = blocks st0" by (rule loop_pending_no_output[rotated])
    with b st0(2) st(3) have ne: "blocks_after s (?pre @ ?seg) \<noteq> blocks_after s ?pre"
      by (simp only: whole) simp
    have lz: "level_after s (?pre @ ?seg) = 0" using st(2) lst by (simp only: whole)
    have cb: "completes_block s ?pre ?seg"
      unfolding completes_block_iff using k(2) inner lz ne by blast
    have "blocks_after s (?pre @ ?seg) = take (Suc i) (blocks_after s (ts @ [t]))"
      using st(3) b i by (simp only: whole) simp
    with cb whole have "ts @ [t] = ?pre @ ?seg @ [] \<and> completes_block s ?pre ?seg
      \<and> blocks_after s (?pre @ ?seg) = take (Suc i) (blocks_after s (ts @ [t]))" by simp
    then show ?thesis by blast
  qed
qed

lemma extract_blocks_after: "extract_pg_blocks_tokenized s = Inr (blocks_after s (finditer 0 s))"
proof -
  obtain st where "loop s init_state (finditer 0 s) = Inr st"
    "blocks_after s (finditer 0 s) = blocks st" using run_state by blast
  then show ?thesis by (simp add: extract_blocks)
qed

text \<open>
  C4: every Block that the extractor returns is completed by a run of tokens with as many
  begin markers as end markers (and every such run has as many of one as of the other and
  adds exactly one Block); tokens that leave the counter above zero to the end add nothing
  to the Blocks completed before them; a text in which no end marker follows a begin
  marker yields no Block.
\<close>

theorem blocks_balanced_pending_dropped:
  "(extract_pg_blocks_tokenized s = Inr bs \<and> i < length bs \<longrightarrow>
      (\<exists>pre seg post. finditer 0 s = pre @ seg @ post \<and> completes_block s pre seg
         \<and> blocks_after s (pre @ seg) = take (Suc i) bs
         \<and> length (filter (\<lambda>t. snd t = BEGIN_MARKER) seg)
             = length (filter (\<lambda>t. snd t = END_MARKER) seg)))
   \<and> (finditer 0 s = pre @ seg @ post \<and> completes_block s pre seg \<longrightarrow>
        length (filter (\<lambda>t. snd t = BEGIN_MARKER) seg)
          = length (filter (\<lambda>t. snd t = END_MARKER) seg)
        \<and> (\<exists>b. blocks_after s (pre @ seg) = blocks_after s pre @ [b]))
   \<and> (finditer 0 s = pre' @ seg' \<and> pending_block s pre' seg' \<longrightarrow>
        extract_pg_blocks_tokenized s = Inr (blocks_after s pre'))
   \<and> (finditer 0 s = es @ bgs \<and> (\<forall>t \<in> set es. snd t = END_MARKER)
        \<and> (\<forall>t \<in> set bgs. snd t = BEGIN_MARKER) \<longrightarrow>
        extract_pg_blocks_tokenized s = Inr [])"
  (is "?A \<and> ?B \<and> ?C \<and> ?D")
proof -
  have A: ?A
  proof (rule impI)
    assume a: "extract_pg_blocks_tokenized s = Inr bs \<and> i < length bs"
    then have bs: "bs = blocks_after s (finditer 0 s)" by (simp add: extract_blocks_after)
    with a every_block_has_segment[of i s "finditer 0 s"] obtain p sg po where
      d: "finditer 0 s = p @ sg @ po" "completes_block s p sg"
      "blocks_after s (p @ sg) = take (Suc i) bs" by auto
    from d(1) have "set sg \<subseteq> set (finditer 0 s)" by auto
    from completes_block_balanced[OF this d(2)] d
    show "\<exists>pre seg post. finditer 0 s = pre @ seg @ post \<and> completes_block s pre seg
         \<and> blocks_after s (pre @ seg) = take (Suc i) bs
         \<and> length (filter (\<lambda>t. snd t = BEGIN_MARKER) seg)
             = length (filter (\<lambda>t. snd t = END_MARKER) seg)" by blast
  qed
  have B: ?B
  proof (rule impI)
    assume a: "finditer 0 s = pre @ seg @ post \<and> completes_block s pre seg"
    then have "set seg \<subseteq> set (finditer 0 s)" by auto
    from completes_block_balanced[OF this] a
    show "length (filter (\<lambda>t. snd t = BEGIN_MARKER) seg)
          = length (filter (\<lambda>t. snd t = END_MARKER) seg)
        \<and> (\<exists>b. blocks_after s (pre @ seg) = blocks_after s pre @ [b])" by blast
  qed
  have C: ?C using pending_block_dropped by blast
  have D: ?D using no_end_after_begin by blast
  from A B C D show ?thesis by (intro conjI)
qed
lemma BEGIN_not_inside_BEGIN:
  assumes "prefix BEGIN_MARKER s" and "prefix BEGIN_MARKER (drop i s)" and "i \<noteq> 0"
  shows "length BEGIN_MARKER \<le> i"
proof (rule ccontr)
  assume "\<not> length BEGIN_MARKER \<le> i"
  then have "i < 11" by (simp add: BEGIN_len)
  from assms(1) obtain r where s: "s = ''DOCUMENT();'' @ r"
    by (auto simp: prefix_def BEGIN_MARKER_def)
  from less_11_cases[OF \<open>i < 11\<close>] assms(2,3) show False
    unfolding s BEGIN_MARKER_def by (elim disjE) simp_all
qed

lemma BEGIN_inside_END:
  assumes "prefix END_MARKER s" and "prefix BEGIN_MARKER (drop i s)" and "i \<noteq> 3"
  shows "length END_MARKER \<le> i"
proof (rule ccontr)
  assume "\<not> length END_MARKER \<le> i"
  then have "i < 14" by (simp add: END_len)
  from assms(1) obtain r where s: "s = ''ENDDOCUMENT();'' @ r"
    by (auto simp: prefix_def END_MARKER_def)
  from less_14_cases[OF \<open>i < 14\<close>] assms(2,3) show False
    unfolding s BEGIN_MARKER_def by (elim disjE) simp_all
qed

lemma finditer_begin_complete:
  "prefix BEGIN_MARKER (drop i s) \<Longrightarrow> \<not> (3 \<le> i \<and> prefix END_MARKER (drop (i - 3) s)) \<Longrightarrow>
   (pos + i, BEGIN_MARKER) \<in> set (finditer pos s)"
proof (induction pos s arbitrary: i rule: finditer.induct)
  case (1 pos s)
  show ?case
  proof (cases s rule: finditer_cases)
    case Nil
    with "1.prems" show ?thesis by (simp add: BEGIN_MARKER_def)
  next
    case Begin
    let ?n = "length BEGIN_MARKER"
    show ?thesis
    proof (cases "i = 0")
      case True
      then show ?thesis by (simp add: finditer_begin[OF Begin])
    next
      case False
      from BEGIN_not_inside_BEGIN[OF Begin "1.prems"(1) False] have le: "?n \<le> i" .
      then have "drop (i - ?n) (drop ?n s) = drop i s" by simp
      with "1.prems" have a: "prefix BEGIN_MARKER (drop (i - ?n) (drop ?n s))" by simp
      have b: "\<not> (3 \<le> i - ?n \<and> prefix END_MARKER (drop (i - ?n - 3) (drop ?n s)))"
      proof
        assume c: "3 \<le> i - ?n \<and> prefix END_MARKER (drop (i - ?n - 3) (drop ?n s))"
        then have "i - ?n - 3 + ?n = i - 3" by arith
        then have "drop (i - ?n - 3) (drop ?n s) = drop (i - 3) s" by (simp only: drop_drop)
        with c "1.prems"(2) show False by auto
      qed
      from "1.IH"(1)[OF prefix_BEGIN_nonempty[OF Begin] Begin a b]
      have "(pos + ?n + (i - ?n), BEGIN_MARKER) \<in> set (finditer (pos + ?n) (drop ?n s))" .
      moreover from le have "pos + ?n + (i - ?n) = pos + i" by arith
      ultimately show ?thesis by (simp add: finditer_begin[OF Begin])
    qed
  next
    case End
    let ?n = "length END_MARKER"
    from "1.prems"(2) End(1) have "i \<noteq> 3" by auto
    from BEGIN_inside_END[OF End(1) "1.prems"(1) this] have le: "?n \<le> i" .
    then have "drop (i - ?n) (drop ?n s) = drop i s" by simp
    with "1.prems" have a: "prefix BEGIN_MARKER (drop (i - ?n) (drop ?n s))" by simp
    have b: "\<not> (3 \<le> i - ?n \<and> prefix END_MARKER (drop (i - ?n - 3) (drop ?n s)))"
    proof
      assume c: "3 \<le> i - ?n \<and> prefix END_MARKER (drop (i - ?n - 3) (drop ?n s))"
      then have "i - ?n - 3 + ?n = i - 3" by arith
      then have "drop (i - ?n - 3) (drop ?n s) = drop (i - 3) s" by (simp only: drop_drop)
      with c "1.prems"(2) show False by auto
    qed
    from "1.IH"(2)[OF prefix_END_nonempty[OF End(1)] End(2) End(1) a b]
    have "(pos + ?n + (i - ?n), BEGIN_MARKER) \<in> set (finditer (pos + ?n) (drop ?n s))" .
    moreover from le have "pos + ?n + (i - ?n) = pos + i" by arith
    ultimately show ?thesis by (simp add: finditer_end[OF End(1)])
  next
    case Skip
    from Skip(2) "1.prems"(1) have "i \<noteq> 0" by (cases i) auto
    then obtain j where i: "i = Suc j" by (cases i) auto
    with "1.prems" have a: "prefix BEGIN_MARKER (drop j (tl s))" by (simp add: drop_Suc)
    have b: "\<not> (3 \<le> j \<and> prefix END_MARKER (drop (j - 3) (tl s)))"
    proof
      assume c: "3 \<le> j \<and> prefix END_MARKER (drop (j - 3) (tl s))"
      then have "Suc (j - 3) = i - 3" using i by arith
      then have "drop (j - 3) (tl s) = drop (i - 3) s" by (simp only: drop_Suc[symmetric])
      with c "1.prems"(2) i show False by auto
    qed
    from "1.IH"(3)[OF Skip a b] i show ?thesis
      by (simp add: finditer_skip[OF Skip])
  qed
qed

text \<open>
  C9: every occurrence of \<open>ENDDOCUMENT();\<close> in the text is an end-marker token at its
  offset, and the \<open>DOCUMENT();\<close> inside it, three characters further, is not a token;
  every other occurrence of \<open>DOCUMENT();\<close> is a token; every token is an occurrence of
  one of the two literals; no token starts before the one before it ends.
\<close>

theorem end_marker_is_one_token:
  "(prefix END_MARKER (drop i s) \<longrightarrow>
      (i, END_MARKER) \<in> set (finditer 0 s) \<and> (i + 3, BEGIN_MARKER) \<notin> set (finditer 0 s))
   \<and> (prefix BEGIN_MARKER (drop j s) \<and> \<not> (3 \<le> j \<and> prefix END_MARKER (drop (j - 3) s)) \<longrightarrow>
      (j, BEGIN_MARKER) \<in> set (finditer 0 s))
   \<and> ((p, t) \<in> set (finditer 0 s) \<longrightarrow>
      (t = BEGIN_MARKER \<or> t = END_MARKER) \<and> prefix t (drop p s))
   \<and> sorted_wrt (\<lambda>a b. fst a + length (snd a) \<le> fst b) (finditer 0 s)"
  using finditer_end_complete[of i s 0] finditer_embedded_begin[of i s 0]
    finditer_begin_complete[of j s 0] finditer_sound[of p t 0 s] finditer_sorted[of 0 s]
  by simp

theorem end_marker_is_one_token_witness:
  "(prefix END_MARKER (drop 2 ''a ENDDOCUMENT();DOCUMENT();'')
      \<and> (2, END_MARKER) \<in> set (finditer 0 ''a ENDDOCUMENT();DOCUMENT();'')
      \<and> (2 + 3, BEGIN_MARKER) \<notin> set (finditer 0 ''a ENDDOCUMENT();DOCUMENT();''))
   \<and> (prefix BEGIN_MARKER (drop 16 ''a ENDDOCUMENT();DOCUMENT();'')
      \<and> \<not> (3 \<le> (16::nat) \<and> prefix END_MARKER (drop (16 - 3) ''a ENDDOCUMENT();DOCUMENT();''))
      \<and> (16, BEGIN_MARKER) \<in> set (finditer 0 ''a ENDDOCUMENT();DOCUMENT();''))
   \<and> ((16, BEGIN_MARKER) \<in> set (finditer 0 ''a ENDDOCUMENT();DOCUMENT();'')
      \<and> prefix BEGIN_MARKER (drop 16 ''a ENDDOCUMENT();DOCUMENT();''))
   \<and> finditer 0 ''a ENDDOCUMENT();DOCUMENT();'' = [(2, END_MARKER), (16, BEGIN_MARKER)]"
proof -
  let ?s = "''a ENDDOCUMENT();DOCUMENT();''"
  have h1: "prefix END_MARKER (drop 2 ?s)" by code_simp
  have h2: "prefix BEGIN_MARKER (drop 16 ?s)" by code_simp
  have h3: "\<not> (3 \<le> (16::nat) \<and> prefix END_MARKER (drop (16 - 3) ?s))" by code_simp
  have h4: "finditer 0 ?s = [(2, END_MARKER), (16, BEGIN_MARKER)]" by code_simp
  from end_marker_is_one_token[of 2 ?s 16 16 BEGIN_MARKER] h1 h2 h3 h4
  show ?thesis by simp
qed

text \<open>
  C5: an end-marker token met while the counter is zero leaves the state as it is (Blocks,
  counter and pending start), the loop goes on with the tokens behind it, and the
  extractor returns a list of Blocks, never an error, on every text.
\<close>

theorem stray_end_marker_ignored:
  "(level st = 0 \<longrightarrow>
      step s st (pos, END_MARKER) = Inr st
      \<and> loop s st ((pos, END_MARKER) # ts) = loop s st ts)
   \<and> (\<exists>bs. extract_pg_blocks_tokenized s' = Inr bs)"
proof -
  have "level st = 0 \<longrightarrow> step s st (pos, END_MARKER) = Inr st"
    using step_end_ignored[of END_MARKER st s pos] BEGIN_neq_END by auto
  then show ?thesis by (auto simp: extract_blocks_after)
qed

theorem stray_end_marker_ignored_witness:
  "level init_state = 0
   \<and> step ''ENDDOCUMENT();DOCUMENT();xENDDOCUMENT();'' init_state (0, END_MARKER) = Inr init_state
   \<and> loop ''ENDDOCUMENT();DOCUMENT();xENDDOCUMENT();'' init_state
        ((0, END_MARKER) # [(14, BEGIN_MARKER), (26, END_MARKER)])
     = loop ''ENDDOCUMENT();DOCUMENT();xENDDOCUMENT();'' init_state
        [(14, BEGIN_MARKER), (26, END_MARKER)]
   \<and> finditer 0 ''ENDDOCUMENT();DOCUMENT();xENDDOCUMENT();''
     = (0, END_MARKER) # [(14, BEGIN_MARKER), (26, END_MARKER)]
   \<and> extract_pg_blocks_tokenized ''ENDDOCUMENT();DOCUMENT();xENDDOCUMENT();''
     = Inr [''DOCUMENT();xENDDOCUMENT();\<newline>'']"
proof -
  let ?s = "''ENDDOCUMENT();DOCUMENT();xENDDOCUMENT();''"
  have h: "level init_state = 0" by (simp add: init_state_def)
  have t: "finditer 0 ?s = (0, END_MARKER) # [(14, BEGIN_MARKER), (26, END_MARKER)]"
    by code_simp
  have e: "extract_pg_blocks_tokenized ?s = Inr [''DOCUMENT();xENDDOCUMENT();\<newline>'']"
    by code_simp
  from stray_end_marker_ignored[of init_state ?s 0 "[(14, BEGIN_MARKER), (26, END_MARKER)]" ?s]
    h t e
  show ?thesis by simp
qed
theorem blocks_balanced_pending_dropped_witness:
  "(\<exists>pre seg post.
        finditer 0 ''DOCUMENT();a ENDDOCUMENT();ENDDOCUMENT();DOCUMENT();'' = pre @ seg @ post
      \<and> blocks_after ''DOCUMENT();a ENDDOCUMENT();ENDDOCUMENT();DOCUMENT();'' (pre @ seg)
          = take (Suc 0) [''DOCUMENT();a ENDDOCUMENT();ENDDOCUMENT();DOCUMENT();\<newline>'']
      \<and> length (filter (\<lambda>t. snd t = BEGIN_MARKER) seg)
          = length (filter (\<lambda>t. snd t = END_MARKER) seg))
   \<and> (length (filter (\<lambda>t. snd t = BEGIN_MARKER) [(0 :: nat, BEGIN_MARKER), (13, END_MARKER)])
          = length (filter (\<lambda>t. snd t = END_MARKER) [(0 :: nat, BEGIN_MARKER), (13, END_MARKER)])
      \<and> (\<exists>b. blocks_after ''DOCUMENT();a ENDDOCUMENT();ENDDOCUMENT();DOCUMENT();''
                 ([] @ [(0, BEGIN_MARKER), (13, END_MARKER)])
               = blocks_after ''DOCUMENT();a ENDDOCUMENT();ENDDOCUMENT();DOCUMENT();'' [] @ [b]))
   \<and> extract_pg_blocks_tokenized ''DOCUMENT();a ENDDOCUMENT();ENDDOCUMENT();DOCUMENT();''
        = Inr (blocks_after ''DOCUMENT();a ENDDOCUMENT();ENDDOCUMENT();DOCUMENT();''
                 [(0, BEGIN_MARKER), (13, END_MARKER), (27, END_MARKER)])
   \<and> extract_pg_blocks_tokenized ''ENDDOCUMENT(); DOCUMENT();'' = Inr []"
proof -
  let ?s = "''DOCUMENT();a ENDDOCUMENT();ENDDOCUMENT();DOCUMENT();''"
  let ?u = "''ENDDOCUMENT(); DOCUMENT();''"
  let ?b = "''DOCUMENT();a ENDDOCUMENT();ENDDOCUMENT();DOCUMENT();\<newline>''"
  have e: "extract_pg_blocks_tokenized ?s = Inr [?b]" by code_simp
  have t: "finditer 0 ?s
        = [] @ [(0, BEGIN_MARKER), (13, END_MARKER)] @ [(27, END_MARKER), (41, BEGIN_MARKER)]"
    by code_simp
  have t': "finditer 0 ?s
        = [(0, BEGIN_MARKER), (13, END_MARKER), (27, END_MARKER)] @ [(41, BEGIN_MARKER)]"
    by code_simp
  have c: "completes_block ?s [] [(0, BEGIN_MARKER), (13, END_MARKER)]" by code_simp
  have p: "pending_block ?s [(0, BEGIN_MARKER), (13, END_MARKER), (27, END_MARKER)]
             [(41, BEGIN_MARKER)]" by code_simp
  have u: "finditer 0 ?u = [(0, END_MARKER)] @ [(15, BEGIN_MARKER)]" by code_simp
  have l: "0 < length [?b]" by simp
  have q1: "\<forall>t \<in> set [(0 :: nat, END_MARKER)]. snd t = END_MARKER" by simp
  have q2: "\<forall>t \<in> set [(15 :: nat, BEGIN_MARKER)]. snd t = BEGIN_MARKER" by simp
  note w = blocks_balanced_pending_dropped[where s = ?s and bs = "[?b]" and i = 0
      and pre = "[]" and seg = "[(0, BEGIN_MARKER), (13, END_MARKER)]"
      and post = "[(27, END_MARKER), (41, BEGIN_MARKER)]"
      and pre' = "[(0, BEGIN_MARKER), (13, END_MARKER), (27, END_MARKER)]"
      and seg' = "[(41, BEGIN_MARKER)]" and es = "[]" and bgs = "[]"]
  note w' = blocks_balanced_pending_dropped[where s = ?u and es = "[(0, END_MARKER)]"
      and bgs = "[(15, BEGIN_MARKER)]" and pre = "[]" and seg = "[]" and post = "[]"
      and pre' = "[]" and seg' = "[]" and bs = "[]" and i = 0]
  from w[THEN conjunct1, THEN mp, OF conjI[OF e l]]
  have 1: "\<exists>pre seg post.
          finditer 0 ?s = pre @ seg @ post
        \<and> blocks_after ?s (pre @ seg) = take (Suc 0) [?b]
        \<and> length (filter (\<lambda>t. snd t = BEGIN_MARKER) seg)
            = length (filter (\<lambda>t. snd t = END_MARKER) seg)" by blast
  have 2: "length (filter (\<lambda>t. snd t = BEGIN_MARKER) [(0 :: nat, BEGIN_MARKER), (13, END_MARKER)])
          = length (filter (\<lambda>t. snd t = END_MARKER) [(0 :: nat, BEGIN_MARKER), (13, END_MARKER)])
      \<and> (\<exists>b. blocks_after ?s ([] @ [(0, BEGIN_MARKER), (13, END_MARKER)])
               = blocks_after ?s [] @ [b])"
    by (rule w[THEN conjunct2, THEN conjunct1, THEN mp, OF conjI[OF t c]])
  have 3: "extract_pg_blocks_tokenized ?s
        = Inr (blocks_after ?s [(0, BEGIN_MARKER), (13, END_MARKER), (27, END_MARKER)])"
    by (rule w[THEN conjunct2, THEN conjunct2, THEN conjunct1, THEN mp, OF conjI[OF t' p]])
  have 4: "extract_pg_blocks_tokenized ?u = Inr []"
    by (rule w'[THEN conjunct2, THEN conjunct2, THEN conjunct2, THEN mp,
          OF conjI[OF u conjI[OF q1 q2]]])
  show ?thesis by (rule conjI[OF 1 conjI[OF 2 conjI[OF 3 4]]])
qed

section \<open>Main\<close>

lemma zip_candidate_inj: "zip_candidate root base j = zip_candidate root base k \<Longrightarrow> j = k"
  by (simp add: zip_candidate_def path_join_def str_nat_inj)

lemma unique_zip_path_loop_finds:
  "j \<le> k \<Longrightarrow> \<not> exists (zip_candidate root base k) \<Longrightarrow>
   (\<forall>i. j \<le> i \<and> i < k \<longrightarrow> exists (zip_candidate root base i)) \<Longrightarrow>
   unique_zip_path_loop exists root base j = Some (zip_candidate root base k)"
proof (induction "k - j" arbitrary: j)
  case 0
  then have "j = k" by simp
  with "0.prems"(2) show ?case
    by (subst unique_zip_path_loop.simps) (simp add: zip_candidate_def)
next
  case (Suc d)
  then have lt: "j < k" by simp
  with Suc.prems(3) have ex: "exists (zip_candidate root base j)" by simp
  have "unique_zip_path_loop exists root base (j + 1) = Some (zip_candidate root base k)"
  proof (rule Suc.hyps(1))
    show "d = k - (j + 1)" using Suc.hyps(2) by simp
    show "j + 1 \<le> k" using lt by simp
    show "\<not> exists (zip_candidate root base k)" by (rule Suc.prems(2))
    show "\<forall>i. j + 1 \<le> i \<and> i < k \<longrightarrow> exists (zip_candidate root base i)"
      using Suc.prems(3) by simp
  qed
  with ex show ?case
    by (subst unique_zip_path_loop.simps) (simp add: zip_candidate_def)
qed

lemma unique_zip_path_total:
  assumes "finite {q. exists q}"
  shows "\<exists>z. unique_zip_path exists root base = Some z"
proof (cases "exists (path_join root (base @ ''.zip''))")
  case False
  then show ?thesis by (simp add: unique_zip_path_def Let_def)
next
  case True
  have "\<exists>k. 1 \<le> k \<and> \<not> exists (zip_candidate root base k)"
  proof (rule ccontr)
    assume "\<not> (\<exists>k. 1 \<le> k \<and> \<not> exists (zip_candidate root base k))"
    then have "zip_candidate root base ` {1..} \<subseteq> {q. exists q}" by auto
    with assms have "finite (zip_candidate root base ` {1..})" by (rule finite_subset[rotated])
    moreover have "inj_on (zip_candidate root base) {1..}"
      by (rule inj_onI) (rule zip_candidate_inj)
    ultimately have "finite {1::nat..}" by (simp add: finite_image_iff)
    then show False by (simp add: infinite_Ici)
  qed
  then obtain k where "1 \<le> k \<and> \<not> exists (zip_candidate root base k)"
    "\<forall>i<k. \<not> (1 \<le> i \<and> \<not> exists (zip_candidate root base i))"
    unfolding exists_least_iff[of "\<lambda>k. 1 \<le> k \<and> \<not> exists (zip_candidate root base k)"] by blast
  then have "unique_zip_path_loop exists root base 1 = Some (zip_candidate root base k)"
    by (intro unique_zip_path_loop_finds) auto
  with True show ?thesis by (simp add: unique_zip_path_def Let_def)
qed

lemma unique_subfolder_total:
  assumes "finite {q. exists q}"
  shows "\<exists>r. unique_subfolder exists root base = Some r"
proof -
  from least_absent_candidate[OF finite_has_absent_candidate[OF assms, of root base]]
  obtain n where n: "1 \<le> n" "\<not> exists (candidate root base n)"
    "\<forall>i. 1 \<le> i \<and> i < n \<longrightarrow> exists (candidate root base i)" by blast
  from unique_subfolder_loop_finds[OF n] show ?thesis
    by (simp add: unique_subfolder_cases)
qed

lemma unique_subfolder_absent:
  assumes "unique_subfolder exists root base = Some p"
  shows "\<not> exists p"
proof (cases "exists (path_join root base)")
  case False
  with assms show ?thesis by (simp add: unique_subfolder_cases)
next
  case True
  with assms have "unique_subfolder_loop exists root base 1 = Some p"
    by (simp add: unique_subfolder_cases)
  from unique_subfolder_loop_result[OF this] show ?thesis by blast
qed

lemma finite_path_exists: "finite {q. path_exists fs q}"
proof -
  have "{q. path_exists fs q} = dom (map_of fs)" by (auto simp: path_exists_def)
  then show ?thesis by (simp add: finite_dom_map_of)
qed

lemma extract_total: "\<exists>bs. extract_pg_blocks_tokenized s = Inr bs"
  by (simp add: extract_blocks_after)

lemma written_append: "written (xs @ ys) = written xs @ written ys"
  by (induction xs rule: written.induct) simp_all

lemma fs_events_append: "fs_events (xs @ ys) = fs_events xs @ fs_events ys"
  by (induction xs rule: fs_events.induct) simp_all

lemma write_blocks_events:
  "\<exists>ev' fs'. write_blocks base d i bs (ev, fs) = (ev @ ev', fs') \<and> written ev' = bs"
proof (induction bs arbitrary: i ev fs)
  case Nil
  show ?case by simp
next
  case (Cons b bs)
  define path where "path = path_join d (base @ ''-'' @ str_nat i @ ''.pg'')"
  define ev1 where "ev1 = [Write path b, Print (''Saved: '' @ [CHR 0x22] @ path @ [CHR 0x22])]"
  from Cons.IH[of "i + 1" "ev @ ev1" "(path, File b) # fs"]
  obtain ev' fs' where r: "write_blocks base d (i + 1) bs (ev @ ev1, (path, File b) # fs)
      = ((ev @ ev1) @ ev', fs')" and w: "written ev' = bs" by blast
  have "write_blocks base d i (b # bs) (ev, fs)
      = write_blocks base d (i + 1) bs (ev @ ev1, (path, File b) # fs)"
    by (simp add: Let_def path_def ev1_def)
  with r have 1: "write_blocks base d i (b # bs) (ev, fs) = (ev @ (ev1 @ ev'), fs')" by simp
  have "written ev1 = [b]" by (simp add: ev1_def)
  with w have 2: "written (ev1 @ ev') = b # bs" by (simp add: written_append)
  from 1 2 show ?case by blast
qed

lemma map_of_new_dirs:
  "map_of (map (\<lambda>a. (a, Dir)) as) q = (if q \<in> set as then Some Dir else None)"
  by (induction as) auto

lemma mkdir_parents_result:
  assumes "mkdir_parents fs p = Inr fs1"
  shows "\<not> path_exists fs p"
    and "map_of fs1 p = Some Dir"
    and "map_of fs1 q = map_of fs q
         \<or> (map_of fs q = None \<and> map_of fs1 q = Some Dir \<and> (q = p \<or> q \<in> set (parents p)))"
proof -
  define new where "new = filter (\<lambda>a. \<not> path_exists fs a) (parents p @ [p])"
  from assms show np: "\<not> path_exists fs p"
    by (auto simp: mkdir_parents_def split: if_splits)
  from assms have fs1: "fs1 = map (\<lambda>a. (a, Dir)) new @ fs"
    unfolding new_def by (auto simp: mkdir_parents_def split: if_splits)
  have m: "map_of fs1 q = (if q \<in> set new then Some Dir else map_of fs q)" for q
    unfolding fs1 map_of_append by (simp add: map_add_def map_of_new_dirs)
  have mem: "q \<in> set new \<longleftrightarrow> (q \<in> set (parents p) \<or> q = p) \<and> \<not> path_exists fs q" for q
    unfolding new_def set_filter by auto
  from np have "p \<in> set new" using mem[of p] by blast
  then show "map_of fs1 p = Some Dir" using m[of p] by simp
  show "map_of fs1 q = map_of fs q
         \<or> (map_of fs q = None \<and> map_of fs1 q = Some Dir \<and> (q = p \<or> q \<in> set (parents p)))"
  proof (cases "q \<in> set new")
    case True
    then have "(q \<in> set (parents p) \<or> q = p) \<and> \<not> path_exists fs q"
      using mem[of q] by blast
    then have "map_of fs q = None" "q = p \<or> q \<in> set (parents p)"
      by (auto simp: path_exists_def)
    moreover from True have "map_of fs1 q = Some Dir" using m[of q] by simp
    ultimately show ?thesis by blast
  next
    case False
    then have "map_of fs1 q = map_of fs q" using m[of q] by simp
    then show ?thesis by blast
  qed
qed

lemma main_mkdir_fails:
  assumes a: "unique_subfolder (path_exists fs) ROOT (''pg-folders/'' @ chosen_base name_line) = Some p"
    and m: "mkdir_parents fs p = Inl e"
  shows "main fs ROOT name_line lines = Some (Inl e)" and "e = NotADirectoryError"
proof -
  show "main fs ROOT name_line lines = Some (Inl e)"
    using a[unfolded chosen_base_def] m by (simp add: main_def Let_def)
  from unique_subfolder_absent[OF a] m show "e = NotADirectoryError"
    by (auto simp: mkdir_parents_def split: if_splits)
qed

lemma main_blank:
  assumes a: "unique_subfolder (path_exists fs) ROOT (''pg-folders/'' @ chosen_base name_line) = Some p"
    and m: "mkdir_parents fs p = Inr fs1"
    and b: "strip (capture_lines_until_ctrl_c lines) = []"
  shows "main fs ROOT name_line lines =
     Some (Inr \<lparr>exit_status = 0,
                events = prelude name_line p lines @ [Print ''No input detected. Nothing to do.''],
                fs_after = fs1\<rparr>)"
  using a[unfolded chosen_base_def] m b
  by (simp add: main_def Let_def prelude_def chosen_base_def)

lemma main_no_blocks:
  assumes a: "unique_subfolder (path_exists fs) ROOT (''pg-folders/'' @ chosen_base name_line) = Some p"
    and m: "mkdir_parents fs p = Inr fs1"
    and b: "strip (capture_lines_until_ctrl_c lines) \<noteq> []"
    and x: "extract_pg_blocks_tokenized (capture_lines_until_ctrl_c lines) = Inr []"
  shows "main fs ROOT name_line lines =
     Some (Inr \<lparr>exit_status = 1,
                events = prelude name_line p lines
                  @ [Print (''No '' @ [CHR 0x27] @ ''DOCUMENT(); ... ENDDOCUMENT();''
                             @ [CHR 0x27] @ '' blocks found. Aborting.'')],
                fs_after = fs1\<rparr>)"
  using a[unfolded chosen_base_def] m b x
  by (simp add: main_def Let_def prelude_def chosen_base_def)

lemma main_blocks:
  assumes a: "unique_subfolder (path_exists fs) ROOT (''pg-folders/'' @ chosen_base name_line) = Some p"
    and m: "mkdir_parents fs p = Inr fs1"
    and b: "strip (capture_lines_until_ctrl_c lines) \<noteq> []"
    and x: "extract_pg_blocks_tokenized (capture_lines_until_ctrl_c lines) = Inr bs"
    and n: "bs \<noteq> []"
  shows "\<exists>ev' fs2 z. main fs ROOT name_line lines =
     Some (Inr \<lparr>exit_status = 0,
                events = (prelude name_line p lines @ ev')
                  @ [MakeArchive p z,
                     Print (''\<newline>Created zip: '' @ [CHR 0x22] @ z @ [CHR 0x22]),
                     Print ''Done.''],
                fs_after = make_archive fs2 p z\<rparr>)
     \<and> written ev' = bs"
proof -
  from write_blocks_events[of "chosen_base name_line" p 1 bs "prelude name_line p lines" fs1]
  obtain ev' fs2 where w: "write_blocks (chosen_base name_line) p 1 bs (prelude name_line p lines, fs1)
      = (prelude name_line p lines @ ev', fs2)" and wr: "written ev' = bs" by blast
  from unique_zip_path_total[OF finite_path_exists, of fs2 ROOT "chosen_base name_line"]
  obtain z where z: "unique_zip_path (path_exists fs2) ROOT (chosen_base name_line) = Some z"
    by blast
  have "main fs ROOT name_line lines =
     Some (Inr \<lparr>exit_status = 0,
                events = (prelude name_line p lines @ ev')
                  @ [MakeArchive p z,
                     Print (''\<newline>Created zip: '' @ [CHR 0x22] @ z @ [CHR 0x22]),
                     Print ''Done.''],
                fs_after = make_archive fs2 p z\<rparr>)"
    using a[unfolded chosen_base_def] m b x n
      w[unfolded chosen_base_def prelude_def] z[unfolded chosen_base_def]
    by (simp add: main_def Let_def prelude_def chosen_base_def)
  with wr show ?thesis by blast
qed

lemma written_prelude: "written (prelude name_line p lines) = []"
  by (simp add: prelude_def)

lemma fs_events_prelude: "fs_events (prelude name_line p lines) = [Mkdir p]"
  by (simp add: prelude_def)

lemma main_outcome:
  "\<exists>p. unique_subfolder (path_exists fs) ROOT (''pg-folders/'' @ chosen_base name_line) = Some p
     \<and> ((\<exists>e. mkdir_parents fs p = Inl e \<and> e = NotADirectoryError
             \<and> main fs ROOT name_line lines = Some (Inl e))
        \<or> (\<exists>fs1. mkdir_parents fs p = Inr fs1
             \<and> ((strip (capture_lines_until_ctrl_c lines) = []
                  \<and> main fs ROOT name_line lines =
                      Some (Inr \<lparr>exit_status = 0,
                        events = prelude name_line p lines
                                   @ [Print ''No input detected. Nothing to do.''],
                        fs_after = fs1\<rparr>))
                \<or> (strip (capture_lines_until_ctrl_c lines) \<noteq> []
                  \<and> extract_pg_blocks_tokenized (capture_lines_until_ctrl_c lines) = Inr []
                  \<and> main fs ROOT name_line lines =
                      Some (Inr \<lparr>exit_status = 1,
                        events = prelude name_line p lines
                          @ [Print (''No '' @ [CHR 0x27] @ ''DOCUMENT(); ... ENDDOCUMENT();''
                                     @ [CHR 0x27] @ '' blocks found. Aborting.'')],
                        fs_after = fs1\<rparr>))
                \<or> (strip (capture_lines_until_ctrl_c lines) \<noteq> []
                  \<and> (\<exists>bs ev' fs2 z.
                        extract_pg_blocks_tokenized (capture_lines_until_ctrl_c lines) = Inr bs
                      \<and> bs \<noteq> [] \<and> written ev' = bs
                      \<and> main fs ROOT name_line lines =
                          Some (Inr \<lparr>exit_status = 0,
                            events = (prelude name_line p lines @ ev')
                              @ [MakeArchive p z,
                                 Print (''\<newline>Created zip: '' @ [CHR 0x22] @ z @ [CHR 0x22]),
                                 Print ''Done.''],
                            fs_after = make_archive fs2 p z\<rparr>))))))"
proof -
  let ?T = "capture_lines_until_ctrl_c lines"
  from unique_subfolder_total[OF finite_path_exists, of fs ROOT "''pg-folders/'' @ chosen_base name_line"]
  obtain p where a: "unique_subfolder (path_exists fs) ROOT (''pg-folders/'' @ chosen_base name_line) = Some p"
    by blast
  show ?thesis
  proof (cases "mkdir_parents fs p")
    case (Inl e)
    from main_mkdir_fails[OF a Inl] a Inl show ?thesis by blast
  next
    case (Inr fs1)
    show ?thesis
    proof (cases "strip ?T = []")
      case True
      from main_blank[OF a Inr True] a Inr True show ?thesis by blast
    next
      case False
      obtain bs where x: "extract_pg_blocks_tokenized ?T = Inr bs" using extract_total by blast
      show ?thesis
      proof (cases "bs = []")
        case True
        with x have x0: "extract_pg_blocks_tokenized ?T = Inr []" by simp
        from main_no_blocks[OF a Inr False x0] a Inr False x0 show ?thesis by blast
      next
        case ne: False
        from main_blocks[OF a Inr False x ne] obtain ev' fs2 z where
          "main fs ROOT name_line lines =
             Some (Inr \<lparr>exit_status = 0,
                events = (prelude name_line p lines @ ev')
                  @ [MakeArchive p z,
                     Print (''\<newline>Created zip: '' @ [CHR 0x22] @ z @ [CHR 0x22]),
                     Print ''Done.''],
                fs_after = make_archive fs2 p z\<rparr>)" "written ev' = bs" by blast
        with a Inr False x ne show ?thesis by blast
      qed
    qed
  qed
qed


text \<open>
  C10: when \<open>main\<close> ends on one of its two early exits (blank text, or no Block), the
  folder was allocated and created before the capture, it did not exist before and is a
  directory afterwards, the file system left is the one right after \<open>mkdir\<close> (which adds
  the folder and its missing ancestors as directories and changes nothing else), the
  only event that changes the file system is that \<open>mkdir\<close>, and no Block was written.
\<close>

theorem main_early_exit_leaves_folder:
  "main fs ROOT name_line lines = Some (Inr out)
   \<and> (strip (capture_lines_until_ctrl_c lines) = []
      \<or> extract_pg_blocks_tokenized (capture_lines_until_ctrl_c lines) = Inr []) \<longrightarrow>
   (\<exists>p. unique_subfolder (path_exists fs) ROOT (''pg-folders/'' @ chosen_base name_line) = Some p
      \<and> \<not> path_exists fs p
      \<and> mkdir_parents fs p = Inr (fs_after out)
      \<and> map_of (fs_after out) p = Some Dir
      \<and> (\<forall>q. map_of (fs_after out) q = map_of fs q
             \<or> (map_of fs q = None \<and> map_of (fs_after out) q = Some Dir
                \<and> (q = p \<or> q \<in> set (parents p))))
      \<and> (\<exists>ev1 ev2. events out = ev1 @ Mkdir p # ev2
             \<and> Capture lines \<in> set ev2 \<and> Capture lines \<notin> set ev1)
      \<and> fs_events (events out) = [Mkdir p]
      \<and> written (events out) = [])"
proof (rule impI)
  let ?X = "capture_lines_until_ctrl_c lines"
  assume h: "main fs ROOT name_line lines = Some (Inr out)
   \<and> (strip ?X = [] \<or> extract_pg_blocks_tokenized ?X = Inr [])"
  from main_outcome[of fs ROOT name_line lines] obtain p where
    a: "unique_subfolder (path_exists fs) ROOT (''pg-folders/'' @ chosen_base name_line) = Some p"
    and c: "(\<exists>e. mkdir_parents fs p = Inl e \<and> e = NotADirectoryError
             \<and> main fs ROOT name_line lines = Some (Inl e))
        \<or> (\<exists>fs1. mkdir_parents fs p = Inr fs1
             \<and> ((strip ?X = []
                  \<and> main fs ROOT name_line lines =
                      Some (Inr \<lparr>exit_status = 0,
                        events = prelude name_line p lines
                                   @ [Print ''No input detected. Nothing to do.''],
                        fs_after = fs1\<rparr>))
                \<or> (strip ?X \<noteq> []
                  \<and> extract_pg_blocks_tokenized ?X = Inr []
                  \<and> main fs ROOT name_line lines =
                      Some (Inr \<lparr>exit_status = 1,
                        events = prelude name_line p lines
                          @ [Print (''No '' @ [CHR 0x27] @ ''DOCUMENT(); ... ENDDOCUMENT();''
                                     @ [CHR 0x27] @ '' blocks found. Aborting.'')],
                        fs_after = fs1\<rparr>))
                \<or> (strip ?X \<noteq> []
                  \<and> (\<exists>bs ev' fs2 z.
                        extract_pg_blocks_tokenized ?X = Inr bs
                      \<and> bs \<noteq> [] \<and> written ev' = bs
                      \<and> main fs ROOT name_line lines =
                          Some (Inr \<lparr>exit_status = 0,
                            events = (prelude name_line p lines @ ev')
                              @ [MakeArchive p z,
                                 Print (''\<newline>Created zip: '' @ [CHR 0x22] @ z @ [CHR 0x22]),
                                 Print ''Done.''],
                            fs_after = make_archive fs2 p z\<rparr>)))))"
    by blast
  from c h obtain fs1 msg where m: "mkdir_parents fs p = Inr fs1"
    and out: "out = \<lparr>exit_status = (if strip ?X = [] then 0 else 1),
                    events = prelude name_line p lines @ [Print msg], fs_after = fs1\<rparr>"
    by (elim disjE exE conjE) auto
  have f: "fs_after out = fs1" by (simp add: out)
  have ev: "events out = [Input ''Enter base filename (default: webwork-problems): '']
      @ Mkdir p # (tl (tl (prelude name_line p lines)) @ [Print msg])"
    by (simp add: out prelude_def)
  have cap: "Capture lines \<in> set (tl (tl (prelude name_line p lines)) @ [Print msg])"
    by (simp add: prelude_def)
  have ncap: "Capture lines \<notin> set [Input ''Enter base filename (default: webwork-problems): '']"
    by simp
  from ev cap ncap have order: "\<exists>ev1 ev2. events out = ev1 @ Mkdir p # ev2
             \<and> Capture lines \<in> set ev2 \<and> Capture lines \<notin> set ev1" by blast
  have fe: "fs_events (events out) = [Mkdir p]"
    by (simp add: out fs_events_append fs_events_prelude)
  have wr: "written (events out) = []"
    by (simp add: out written_append written_prelude)
  from mkdir_parents_result[OF m] have r1: "\<not> path_exists fs p"
    and r2: "map_of fs1 p = Some Dir"
    and r3: "\<forall>q. map_of fs1 q = map_of fs q
             \<or> (map_of fs q = None \<and> map_of fs1 q = Some Dir
                \<and> (q = p \<or> q \<in> set (parents p)))"
    by blast+
  from a r1 m r2 r3 order fe wr
  show "\<exists>p. unique_subfolder (path_exists fs) ROOT (''pg-folders/'' @ chosen_base name_line) = Some p
      \<and> \<not> path_exists fs p
      \<and> mkdir_parents fs p = Inr (fs_after out)
      \<and> map_of (fs_after out) p = Some Dir
      \<and> (\<forall>q. map_of (fs_after out) q = map_of fs q
             \<or> (map_of fs q = None \<and> map_of (fs_after out) q = Some Dir
                \<and> (q = p \<or> q \<in> set (parents p))))
      \<and> (\<exists>ev1 ev2. events out = ev1 @ Mkdir p # ev2
             \<and> Capture lines \<in> set ev2 \<and> Capture lines \<notin> set ev1)
      \<and> fs_events (events out) = [Mkdir p]
      \<and> written (events out) = []"
    unfolding f by (intro exI[of _ p] conjI)
qed


theorem main_early_exit_leaves_folder_witness:
  "(\<exists>out. main [(''/r/pg-folders'', Dir), (''/r'', Dir)] ''/r'' ''x'' [''  ''] = Some (Inr out)
       \<and> fs_after out = [(''/r/pg-folders/x'', Dir), (''/r/pg-folders'', Dir), (''/r'', Dir)]
       \<and> fs_events (events out) = [Mkdir ''/r/pg-folders/x'']
       \<and> written (events out) = [])
   \<and> (\<exists>out. main [(''/r/pg-folders'', Dir), (''/r'', Dir)] ''/r'' ''x'' [''abc''] = Some (Inr out)
       \<and> fs_after out = [(''/r/pg-folders/x'', Dir), (''/r/pg-folders'', Dir), (''/r'', Dir)]
       \<and> fs_events (events out) = [Mkdir ''/r/pg-folders/x'']
       \<and> written (events out) = [])"
proof -
  let ?fs = "[(''/r/pg-folders'', Dir), (''/r'', Dir)]"
  have r1: "case main ?fs ''/r'' ''x'' [''  ''] of Some (Inr out) \<Rightarrow> True | _ \<Rightarrow> False"
    by code_simp
  have r2: "case main ?fs ''/r'' ''x'' [''abc''] of Some (Inr out) \<Rightarrow> True | _ \<Rightarrow> False"
    by code_simp
  have b1: "strip (capture_lines_until_ctrl_c [''  '']) = []" by code_simp
  have x2: "extract_pg_blocks_tokenized (capture_lines_until_ctrl_c [''abc'']) = Inr []"
    by code_simp
  have u: "unique_subfolder (path_exists ?fs) ''/r'' (''pg-folders/'' @ chosen_base ''x'')
      = Some ''/r/pg-folders/x''" by code_simp
  have k: "mkdir_parents ?fs ''/r/pg-folders/x''
      = Inr [(''/r/pg-folders/x'', Dir), (''/r/pg-folders'', Dir), (''/r'', Dir)]" by code_simp
  from r1 obtain o1 where o1: "main ?fs ''/r'' ''x'' [''  ''] = Some (Inr o1)"
    by (auto split: option.splits sum.splits)
  from r2 obtain o2 where o2: "main ?fs ''/r'' ''x'' [''abc''] = Some (Inr o2)"
    by (auto split: option.splits sum.splits)
  from main_early_exit_leaves_folder[of ?fs "''/r''" "''x''" "[''  '']" o1] o1 b1 u k
  have 1: "fs_after o1 = [(''/r/pg-folders/x'', Dir), (''/r/pg-folders'', Dir), (''/r'', Dir)]
       \<and> fs_events (events o1) = [Mkdir ''/r/pg-folders/x''] \<and> written (events o1) = []"
    by auto
  from main_early_exit_leaves_folder[of ?fs "''/r''" "''x''" "[''abc'']" o2] o2 x2 u k
  have 2: "fs_after o2 = [(''/r/pg-folders/x'', Dir), (''/r/pg-folders'', Dir), (''/r'', Dir)]
       \<and> fs_events (events o2) = [Mkdir ''/r/pg-folders/x''] \<and> written (events o2) = []"
    by auto
  from o1 1 o2 2 show ?thesis by blast
qed

end
